theory Spec2Isabelle
  imports Main
begin

section \<open>Data model of transport/nats/nats.go\<close>

text \<open>
  Subjects and payloads are Go strings and byte slices; both are lists of 8-bit
  characters here.
\<close>

type_synonym subject = string
type_synonym bytes = string

text \<open>
  The error values the file returns or compares against: the literal error of
  \<open>Socket.Recv\<close>, \<open>io.EOF\<close>, \<open>nats.ErrTimeout\<close>, every other error of the bus client,
  and the errors of \<open>encoding/json\<close>.
\<close>

datatype error =
    ErrNilMessage
  | EOF
  | ErrTimeout
  | ErrBus string
  | ErrCodec string

text \<open>A run-time panic of Go (not an error return).\<close>

datatype panic = SendOnClosedChannel | CloseOfClosedChannel | NilDereference

text \<open>\<open>nats.Msg\<close>: the frame the bus delivers.\<close>

record Msg =
  Subject :: subject
  Reply :: subject
  Data :: bytes

subsection \<open>Go channels\<close>

text \<open>
  A channel is its buffer, its capacity and its closed flag. Only the operations the file
  uses are modelled: a receive \<open>v, ok := <-c\<close>, a non-blocking send
  \<open>select { case c <- v: ... default: }\<close>, \<open>close(c)\<close>, and the non-blocking probe
  \<open>select { case <-c: ... default: }\<close>.
\<close>

record 'a chan =
  ch_buf :: "'a list"
  ch_cap :: nat
  ch_closed :: bool

definition make_chan :: "nat \<Rightarrow> 'a chan" where
  "make_chan n = \<lparr>ch_buf = [], ch_cap = n, ch_closed = False\<rparr>"

datatype 'a recv_result = Received 'a "'a chan" | RecvClosed | RecvWait

definition chan_recv :: "'a chan \<Rightarrow> 'a recv_result" where
  "chan_recv c =
     (case ch_buf c of
        x # xs \<Rightarrow> Received x (c\<lparr>ch_buf := xs\<rparr>)
      | [] \<Rightarrow> if ch_closed c then RecvClosed else RecvWait)"

datatype 'a send_result = Sent "'a chan" | SendDefault | SendPanic

definition chan_try_send :: "'a chan \<Rightarrow> 'a \<Rightarrow> 'a send_result" where
  "chan_try_send c x =
     (if ch_closed c then SendPanic
      else if length (ch_buf c) < ch_cap c then Sent (c\<lparr>ch_buf := ch_buf c @ [x]\<rparr>)
      else SendDefault)"

definition chan_close :: "'a chan \<Rightarrow> panic + 'a chan" where
  "chan_close c = (if ch_closed c then Inl CloseOfClosedChannel else Inr (c\<lparr>ch_closed := True\<rparr>))"

definition chan_ready :: "'a chan \<Rightarrow> bool" where
  "chan_ready c = (ch_buf c \<noteq> [] \<or> ch_closed c)"

subsection \<open>The socket\<close>

text \<open>
  \<open>ntportSocket\<close>: the first frame \<open>m\<close>, the hand-off channel \<open>r\<close> (capacity 1), the
  \<open>sync.Once\<close> (its done flag), the close signal \<open>close\<close> (unbuffered, never sent on) and
  the backlog \<open>bl\<close>. The bus connection \<open>conn\<close> is passed to \<open>Send\<close> explicitly; the
  mutex is the atomicity of each operation below.
\<close>

record ntportSocket =
  sock_m :: Msg
  sock_r :: "Msg chan"
  sock_once :: bool
  sock_close :: "bool chan"
  sock_bl :: "Msg list"

text \<open>The socket literal of \<open>Accept\<close> (lines 160-166).\<close>

definition new_socket :: "Msg \<Rightarrow> ntportSocket" where
  "new_socket m =
     \<lparr>sock_m = m, sock_r = make_chan 1, sock_once = False, sock_close = make_chan 0,
      sock_bl = []\<rparr>"

text \<open>
  The payload codec, \<open>encoding/json\<close> on \<open>transport.Message\<close>, is outside the repository
  and is a parameter. \<open>json_Marshal p\<close> encodes the message a pointer refers to (\<open>None\<close> is
  the nil pointer). \<open>json_Unmarshal data p\<close> is \<open>json.Unmarshal(data, &p)\<close> for a pointer
  variable \<open>p\<close>: it returns the error and what \<open>p\<close> refers to afterwards.
\<close>

record 'm codec =
  json_Marshal :: "'m option \<Rightarrow> error + bytes"
  json_Unmarshal :: "bytes \<Rightarrow> 'm option \<Rightarrow> error option \<times> 'm option"

text \<open>
  A sample codec for concrete runs: a message is a string and is its own encoding, the nil
  pointer encodes as \<open>null\<close>, and decoding \<open>null\<close> sets the pointer to nil.
\<close>

definition text_codec :: "string codec" where
  "text_codec =
     \<lparr>json_Marshal = (\<lambda>m. case m of None \<Rightarrow> Inr ''null'' | Some v \<Rightarrow> Inr v),
      json_Unmarshal = (\<lambda>d p. if d = ''null'' then (None, None) else (None, Some d))\<rparr>"

text \<open>
  Lines 93-99 of \<open>Recv\<close> and 197-201 of \<open>Accept\<close>: with a non-empty backlog, try to
  hand its head to \<open>r\<close> without blocking.
\<close>

definition promote :: "ntportSocket \<Rightarrow> panic + ntportSocket" where
  "promote s =
     (case sock_bl s of
        [] \<Rightarrow> Inr s
      | b # bs \<Rightarrow>
          (case chan_try_send (sock_r s) b of
             Sent c \<Rightarrow> Inr (s\<lparr>sock_r := c, sock_bl := bs\<rparr>)
           | SendDefault \<Rightarrow> Inr s
           | SendPanic \<Rightarrow> Inl SendOnClosedChannel))"

text \<open>
  Lines 88-100 of \<open>Recv\<close>: the receive from \<open>r\<close> and the promotion of the backlog head.
  \<open>TakeWait\<close> is the receiver parked on \<open><-n.r\<close>; a panic leaves the socket with
  the frame already taken from \<open>r\<close>.
\<close>

datatype take_result = Took Msg ntportSocket | TakeEOF | TakeWait | TakePanic panic ntportSocket

definition take_frame :: "ntportSocket \<Rightarrow> take_result" where
  "take_frame s =
     (case chan_recv (sock_r s) of
        RecvWait \<Rightarrow> TakeWait
      | RecvClosed \<Rightarrow> TakeEOF
      | Received f c \<Rightarrow>
          (case promote (s\<lparr>sock_r := c\<rparr>) of
             Inl p \<Rightarrow> TakePanic p (s\<lparr>sock_r := c\<rparr>)
           | Inr s' \<Rightarrow> Took f s'))"

text \<open>
  \<open>Socket.Recv\<close>. The argument is the caller's pointer (\<open>None\<close> is nil, \<open>Some v\<close> a
  message holding \<open>v\<close>). A call that returns gives the error, the caller's message
  afterwards and the socket afterwards; a call parked on \<open><-n.r\<close> is \<open>RecvBlocked\<close>.
  \<open>json.Unmarshal(r.Data, &m)\<close> (\<open>decode_into\<close>, lines 102-105) works on the local
  copy of the pointer: when it sets that copy to nil the caller's message is untouched.
\<close>

datatype 'm recv_outcome =
    RecvReturn "error option" "'m option" ntportSocket
  | RecvBlocked
  | RecvPanic panic

definition decode_into :: "'m codec \<Rightarrow> Msg \<Rightarrow> 'm \<Rightarrow> error option \<times> 'm option" where
  "decode_into cd f v =
     (case json_Unmarshal cd (Data f) (Some v) of
        (err, None) \<Rightarrow> (err, Some v)
      | (err, Some v') \<Rightarrow> (err, Some v'))"

definition Recv :: "'m codec \<Rightarrow> 'm option \<Rightarrow> ntportSocket \<Rightarrow> 'm recv_outcome" where
  "Recv cd m s =
     (case m of
        None \<Rightarrow> RecvReturn (Some ErrNilMessage) None s
      | Some v \<Rightarrow>
          (case take_frame s of
             TakeWait \<Rightarrow> RecvBlocked
           | TakeEOF \<Rightarrow> RecvReturn (Some EOF) (Some v) s
           | TakePanic p s' \<Rightarrow> RecvPanic p
           | Took f s' \<Rightarrow>
               (case decode_into cd f v of
                  (err, m') \<Rightarrow> RecvReturn err m' s')))"

text \<open>
  Consecutive \<open>Recv\<close> calls on one socket, one per target message of the list; the
  results of the calls that returned, up to the first call that parks or panics.
\<close>

fun Recv_each ::
  "'m codec \<Rightarrow> 'm list \<Rightarrow> ntportSocket \<Rightarrow> (error option \<times> 'm option) list \<times> ntportSocket" where
  "Recv_each cd [] s = ([], s)"
| "Recv_each cd (v # vs) s =
     (case Recv cd (Some v) s of
        RecvReturn err m' s' \<Rightarrow>
          (case Recv_each cd vs s' of (rs, s'') \<Rightarrow> ((err, m') # rs, s''))
      | RecvBlocked \<Rightarrow> ([], s)
      | RecvPanic p \<Rightarrow> ([], s))"

text \<open>
  \<open>Socket.Close\<close>: \<open>n.once.Do(func() { close(n.close) })\<close>, then \<open>return nil\<close>. The
  result is a panic, or the normal return (of nil) with the list of actions the call
  executed and the socket afterwards.
\<close>

datatype effect = CloseSignal

definition Close :: "ntportSocket \<Rightarrow> panic + (effect list \<times> ntportSocket)" where
  "Close s =
     (if sock_once s then Inr ([], s)
      else (case chan_close (sock_close s) of
              Inl p \<Rightarrow> Inl p
            | Inr c \<Rightarrow> Inr ([CloseSignal], s\<lparr>sock_close := c, sock_once := True\<rparr>)))"

text \<open>A number of \<open>Close\<close> calls on one socket, one after the other.\<close>

fun Close_times :: "nat \<Rightarrow> ntportSocket \<Rightarrow> panic + (effect list \<times> ntportSocket)" where
  "Close_times 0 s = Inr ([], s)"
| "Close_times (Suc k) s =
     (case Close s of
        Inl p \<Rightarrow> Inl p
      | Inr (es, s') \<Rightarrow>
          (case Close_times k s' of
             Inl p \<Rightarrow> Inl p
           | Inr (es', s'') \<Rightarrow> Inr (es @ es', s'')))"

subsection \<open>The transport factory\<close>

text \<open>
  The loop of \<open>NewTransport\<close> (lines 281-291) with its accumulator \<open>cAddrs\<close>, then the
  fallback of lines 293-295. \<open>nats.DefaultURL\<close> is a constant of the bus client and is a
  parameter. Only the address list of the result is modelled.
\<close>

definition scheme :: string where
  "scheme = ''nats://''"

definition HasPrefix :: "string \<Rightarrow> string \<Rightarrow> bool" where
  "HasPrefix s p = (length p \<le> length s \<and> take (length p) s = p)"

fun normalize_loop :: "string list \<Rightarrow> string list \<Rightarrow> string list" where
  "normalize_loop [] cAddrs = cAddrs"
| "normalize_loop (a # as) cAddrs =
     (if length a = 0 then normalize_loop as cAddrs
      else if \<not> HasPrefix a scheme then normalize_loop as (cAddrs @ [scheme @ a])
      else normalize_loop as (cAddrs @ [a]))"

definition NewTransport :: "string \<Rightarrow> string list \<Rightarrow> string list" where
  "NewTransport DefaultURL addrs =
     (let cAddrs = normalize_loop addrs []
      in if length cAddrs = 0 then [DefaultURL] else cAddrs)"

text \<open>
  The normalisation as the specification words it: blank entries are skipped, the scheme is
  put before an entry that lacks it, and an empty result falls back to the default
  endpoint. A blank entry is one with nothing but white space in it (the empty entry
  included).
\<close>

definition canonical :: "string \<Rightarrow> string" where
  "canonical a = (if HasPrefix a scheme then a else scheme @ a)"

definition is_space :: "char \<Rightarrow> bool" where
  "is_space c = (c \<in> set [CHR '' '', CHR 0x09, CHR 0x0A, CHR 0x0B, CHR 0x0C, CHR 0x0D])"

definition blank :: "string \<Rightarrow> bool" where
  "blank a = list_all is_space a"

definition normalized_spec :: "string \<Rightarrow> string list \<Rightarrow> string list" where
  "normalized_spec DefaultURL addrs =
     (let kept = map canonical (filter (\<lambda>a. \<not> blank a) addrs)
      in if kept = [] then [DefaultURL] else kept)"

text \<open>The same with only the entries of length 0 skipped.\<close>

definition normalized_nonempty :: "string \<Rightarrow> string list \<Rightarrow> string list" where
  "normalized_nonempty DefaultURL addrs =
     (let kept = map canonical (filter (\<lambda>a. a \<noteq> []) addrs)
      in if kept = [] then [DefaultURL] else kept)"

subsection \<open>The bus\<close>

text \<open>
  The bus client (\<open>github.com/nats-io/nats\<close>) is outside the repository. Its model is
  the interface the file uses: one queue of undelivered frames per synchronously
  subscribed subject, a generator of inbox subjects (a naming function applied to a
  counter), and the errors, if any, that connecting, subscribing and publishing return.
  A publish appends to the subject's queue (a subject nobody subscribed to loses the
  frame); \<open>NextMsg\<close> takes the head of the queue and times out on an empty one.
\<close>

record bus =
  queues :: "subject \<rightharpoonup> Msg list"
  inbox_name :: "nat \<Rightarrow> subject"
  inbox_seq :: nat
  connect_err :: "string list \<Rightarrow> error option"
  subscribe_err :: "error option"
  publish_err :: "error option"

definition Connect :: "string list \<Rightarrow> bus \<Rightarrow> error option" where
  "Connect servers b = connect_err b servers"

definition NewInbox :: "bus \<Rightarrow> subject \<times> bus" where
  "NewInbox b = (inbox_name b (inbox_seq b), b\<lparr>inbox_seq := Suc (inbox_seq b)\<rparr>)"

definition SubscribeSync :: "subject \<Rightarrow> bus \<Rightarrow> error + bus" where
  "SubscribeSync subj b =
     (case subscribe_err b of
        Some e \<Rightarrow> Inl e
      | None \<Rightarrow> Inr (b\<lparr>queues := (queues b)(subj \<mapsto> [])\<rparr>))"

definition PublishRequest :: "subject \<Rightarrow> subject \<Rightarrow> bytes \<Rightarrow> bus \<Rightarrow> error option \<times> bus" where
  "PublishRequest subj reply data b =
     (case publish_err b of
        Some e \<Rightarrow> (Some e, b)
      | None \<Rightarrow>
          (case queues b subj of
             None \<Rightarrow> (None, b)
           | Some q \<Rightarrow>
               (None, b\<lparr>queues := (queues b)(subj \<mapsto>
                  q @ [\<lparr>Subject = subj, Reply = reply, Data = data\<rparr>])\<rparr>)))"

definition Publish :: "subject \<Rightarrow> bytes \<Rightarrow> bus \<Rightarrow> error option \<times> bus" where
  "Publish subj data b = PublishRequest subj [] data b"

definition NextMsg :: "subject \<Rightarrow> bus \<Rightarrow> (error + Msg) \<times> bus" where
  "NextMsg subj b =
     (case queues b subj of
        None \<Rightarrow> (Inl (ErrBus ''nats: invalid subscription''), b)
      | Some [] \<Rightarrow> (Inl ErrTimeout, b)
      | Some (f # q) \<Rightarrow> (Inr f, b\<lparr>queues := (queues b)(subj \<mapsto> q)\<rparr>))"

subsection \<open>Client and socket send\<close>

text \<open>
  \<open>ntportClient\<close>: the server address and the private reply subject \<open>id\<close>; its
  connection and subscription are the bus and the queue of \<open>id\<close>.
\<close>

record ntportClient =
  cl_addr :: subject
  cl_id :: subject

definition Client_Send :: "'m codec \<Rightarrow> ntportClient \<Rightarrow> 'm option \<Rightarrow> bus \<Rightarrow> error option \<times> bus" where
  "Client_Send cd n m b =
     (case json_Marshal cd m of
        Inl err \<Rightarrow> (Some err, b)
      | Inr bs \<Rightarrow> PublishRequest (cl_addr n) (cl_id n) bs b)"

text \<open>
  \<open>Client.Recv\<close> decodes into a fresh nil pointer \<open>mr\<close> and then copies \<open>*m = *mr\<close>,
  which panics when either pointer is nil. The result is the panic, or the error and the
  caller's message afterwards.
\<close>

definition Client_Recv ::
  "'m codec \<Rightarrow> ntportClient \<Rightarrow> 'm option \<Rightarrow> bus \<Rightarrow> (panic + error option \<times> 'm option) \<times> bus" where
  "Client_Recv cd n m b =
     (case NextMsg (cl_id n) b of
        (Inl err, b') \<Rightarrow> (Inr (Some err, m), b')
      | (Inr rsp, b') \<Rightarrow>
          (case json_Unmarshal cd (Data rsp) None of
             (Some err, mr) \<Rightarrow> (Inr (Some err, m), b')
           | (None, None) \<Rightarrow> (Inl NilDereference, b')
           | (None, Some v) \<Rightarrow>
               (case m of
                  None \<Rightarrow> (Inl NilDereference, b')
                | Some old \<Rightarrow> (Inr (None, Some v), b'))))"

definition Send :: "'m codec \<Rightarrow> ntportSocket \<Rightarrow> 'm option \<Rightarrow> bus \<Rightarrow> error option \<times> bus" where
  "Send cd n m b =
     (case json_Marshal cd m of
        Inl err \<Rightarrow> (Some err, b)
      | Inr bs \<Rightarrow> Publish (Reply (sock_m n)) bs b)"

subsection \<open>The listener\<close>

text \<open>
  \<open>ntportListener\<close> with the goroutines \<open>Accept\<close> starts. The registry \<open>so\<close> maps a
  subject to a socket pointer; \<open>l_heap\<close> holds the sockets allocated so far, a pointer
  being an index into it. \<open>l_watch\<close> are the sockets whose cleanup goroutine (lines
  181-186) is still parked on \<open><-sock.close\<close>; \<open>l_fn\<close> are the sockets handed to the
  accept handler (lines 171-179), in order.
\<close>

record ntportListener =
  l_addr :: subject
  l_so :: "subject \<rightharpoonup> nat"
  l_heap :: "ntportSocket list"
  l_watch :: "nat set"
  l_fn :: "nat list"

text \<open>The listener literal of \<open>Listen\<close> (lines 263-268), before any \<open>Accept\<close>.\<close>

definition new_listener :: "subject \<Rightarrow> ntportListener" where
  "new_listener a = \<lparr>l_addr = a, l_so = Map.empty, l_heap = [], l_watch = {}, l_fn = []\<rparr>"

definition Addr :: "ntportListener \<Rightarrow> subject" where
  "Addr n = l_addr n"

text \<open>
  Lines 154-187: look the reply subject up; for an unknown one allocate a socket, register
  it and start its two goroutines. The result is the socket pointer and the listener.
\<close>

definition lookup_or_create :: "Msg \<Rightarrow> ntportListener \<Rightarrow> nat \<times> ntportListener" where
  "lookup_or_create m n =
     (case l_so n (Reply m) of
        Some p \<Rightarrow> (p, n)
      | None \<Rightarrow>
          (let p = length (l_heap n)
           in (p, n\<lparr>l_heap := l_heap n @ [new_socket m],
                    l_so := (l_so n)(Reply m \<mapsto> p),
                    l_fn := l_fn n @ [p],
                    l_watch := insert p (l_watch n)\<rparr>)))"

text \<open>
  Lines 154-202, the body of the accept loop for one received frame: after the lookup, a
  closed socket drops the frame (\<open>continue\<close>); otherwise the frame is appended to the
  backlog and the backlog head is offered to \<open>r\<close>.
\<close>

definition accept_frame :: "Msg \<Rightarrow> ntportListener \<Rightarrow> panic + ntportListener" where
  "accept_frame m n =
     (case lookup_or_create m n of
        (p, n1) \<Rightarrow>
          (let sock = l_heap n1 ! p
           in if chan_ready (sock_close sock) then Inr n1
              else (case promote (sock\<lparr>sock_bl := sock_bl sock @ [m]\<rparr>) of
                      Inl e \<Rightarrow> Inl e
                    | Inr sock' \<Rightarrow> Inr (n1\<lparr>l_heap := (l_heap n1)[p := sock']\<rparr>))))"

text \<open>
  The cleanup goroutine of socket \<open>p\<close> (lines 181-186): once the close signal is
  released it deletes the registry entry of the socket's reply subject and ends. While
  the signal is not released, or when the goroutine has ended, nothing happens.
\<close>

definition watcher :: "nat \<Rightarrow> ntportListener \<Rightarrow> ntportListener" where
  "watcher p n =
     (if p \<in> l_watch n \<and> p < length (l_heap n) \<and> chan_ready (sock_close (l_heap n ! p))
      then n\<lparr>l_so := (l_so n)(Reply (sock_m (l_heap n ! p)) := None),
             l_watch := l_watch n - {p}\<rparr>
      else n)"

text \<open>
  What the handler goroutine of socket \<open>p\<close> can do to the listener's sockets: close its
  socket (explicitly, or through the recovery of lines 173-177 when the handler panics),
  and receive from it. A panic inside \<open>once.Do\<close> still marks the \<open>Once\<close> done, so the
  recovery's \<open>Close\<close> does nothing more; a panic inside \<open>Recv\<close> is recovered into a
  \<open>Close\<close> of the socket as \<open>Recv\<close> left it. A parked receive changes nothing.
\<close>

definition handler_close :: "nat \<Rightarrow> ntportListener \<Rightarrow> ntportListener" where
  "handler_close p n =
     (if p < length (l_heap n)
      then (case Close (l_heap n ! p) of
              Inl e \<Rightarrow> n\<lparr>l_heap := (l_heap n)[p := (l_heap n ! p)\<lparr>sock_once := True\<rparr>]\<rparr>
            | Inr (es, s') \<Rightarrow> n\<lparr>l_heap := (l_heap n)[p := s']\<rparr>)
      else n)"

definition handler_recv :: "nat \<Rightarrow> ntportListener \<Rightarrow> ntportListener" where
  "handler_recv p n =
     (if p < length (l_heap n)
      then (case take_frame (l_heap n ! p) of
              Took f s' \<Rightarrow> n\<lparr>l_heap := (l_heap n)[p := s']\<rparr>
            | TakePanic e s' \<Rightarrow> handler_close p (n\<lparr>l_heap := (l_heap n)[p := s']\<rparr>)
            | TakeEOF \<Rightarrow> n
            | TakeWait \<Rightarrow> n)
      else n)"

text \<open>
  A run of the listener: the accept loop's polls, each with what \<open>s.NextMsg\<close> returned,
  interleaved with steps of the handler and cleanup goroutines. The loop (lines 146-204)
  re-polls on \<open>nats.ErrTimeout\<close>, returns any other error, and otherwise handles the
  frame. \<open>Polling\<close> is the loop waiting for its next poll when the schedule ends. A
  handler's \<open>Recv\<close> step is a call with a non-nil message (a nil one changes nothing).
  \<open>Listener.Close\<close> and the goroutine of lines 141-144 act on the loop only through
  what a later \<open>NextMsg\<close> returns, which a poll's result covers.
\<close>

datatype event = Poll "error + Msg" | HandlerRecv nat | HandlerClose nat | Watcher nat

datatype accept_result = Polling ntportListener | Returns error ntportListener | Crashed panic

fun Accept_run :: "event list \<Rightarrow> ntportListener \<Rightarrow> accept_result" where
  "Accept_run [] n = Polling n"
| "Accept_run (Poll (Inl err) # es) n =
     (if err = ErrTimeout then Accept_run es n else Returns err n)"
| "Accept_run (Poll (Inr m) # es) n =
     (case accept_frame m n of
        Inl p \<Rightarrow> Crashed p
      | Inr n' \<Rightarrow> Accept_run es n')"
| "Accept_run (HandlerRecv p # es) n = Accept_run es (handler_recv p n)"
| "Accept_run (HandlerClose p # es) n = Accept_run es (handler_close p n)"
| "Accept_run (Watcher p # es) n = Accept_run es (watcher p n)"

text \<open>The frames of reply subject \<open>S\<close> that the polls of a schedule return, in order.\<close>

fun frames_for :: "subject \<Rightarrow> event list \<Rightarrow> Msg list" where
  "frames_for S [] = []"
| "frames_for S (Poll (Inr m) # es) =
     (if Reply m = S then m # frames_for S es else frames_for S es)"
| "frames_for S (Poll (Inl err) # es) = frames_for S es"
| "frames_for S (HandlerRecv p # es) = frames_for S es"
| "frames_for S (HandlerClose p # es) = frames_for S es"
| "frames_for S (Watcher p # es) = frames_for S es"

text \<open>\<open>Listener.Accept\<close>: subscribe to \<open>n.addr\<close> (line 134), then the loop.\<close>

definition Accept :: "ntportListener \<Rightarrow> event list \<Rightarrow> bus \<Rightarrow> accept_result \<times> bus" where
  "Accept n evs b =
     (case SubscribeSync (l_addr n) b of
        Inl err \<Rightarrow> (Returns err n, b)
      | Inr b' \<Rightarrow> (Accept_run evs n, b'))"

subsection \<open>Dial and Listen\<close>

text \<open>\<open>ntport\<close>: the stored endpoints (the TLS options play no part below).\<close>

record ntport =
  t_addrs :: "string list"

definition Dial :: "ntport \<Rightarrow> subject \<Rightarrow> bus \<Rightarrow> (error + ntportClient) \<times> bus" where
  "Dial n addr b =
     (case Connect (t_addrs n) b of
        Some err \<Rightarrow> (Inl err, b)
      | None \<Rightarrow>
          (case NewInbox b of
             (inbox, b1) \<Rightarrow>
               (case SubscribeSync inbox b1 of
                  Inl err \<Rightarrow> (Inl err, b1)
                | Inr b2 \<Rightarrow> (Inr \<lparr>cl_addr = addr, cl_id = inbox\<rparr>, b2))))"

definition Listen :: "ntport \<Rightarrow> subject \<Rightarrow> bus \<Rightarrow> (error + ntportListener) \<times> bus" where
  "Listen n addr b =
     (case Connect (t_addrs n) b of
        Some err \<Rightarrow> (Inl err, b)
      | None \<Rightarrow>
          (case NewInbox b of
             (inbox, b1) \<Rightarrow> (Inr (new_listener inbox), b1)))"

subsection \<open>Invariants\<close>

text \<open>The frames a socket holds, oldest first: the hand-off slot, then the backlog.\<close>

definition pending :: "ntportSocket \<Rightarrow> Msg list" where
  "pending s = ch_buf (sock_r s) @ sock_bl s"

text \<open>
  A well-formed socket: \<open>r\<close> is open with capacity 1, the backlog is empty whenever the
  slot is, nothing was ever sent on \<open>close\<close>, and the \<open>Once\<close> is done exactly when the
  close signal is released.
\<close>

definition sock_ok :: "ntportSocket \<Rightarrow> bool" where
  "sock_ok s =
     (\<not> ch_closed (sock_r s) \<and> ch_cap (sock_r s) = 1 \<and> length (ch_buf (sock_r s)) \<le> 1 \<and>
      (ch_buf (sock_r s) = [] \<longrightarrow> sock_bl s = []) \<and>
      ch_buf (sock_close s) = [] \<and> sock_once s = ch_closed (sock_close s))"

text \<open>
  A well-formed listener: its sockets are well-formed; a registry entry points to a
  socket of that reply subject whose cleanup goroutine is pending; a pending cleanup
  goroutine belongs to the socket registered under its reply subject; and a socket whose
  close signal is not released still has its cleanup goroutine.
\<close>

definition listener_inv :: "ntportListener \<Rightarrow> bool" where
  "listener_inv n =
     ((\<forall>p < length (l_heap n). sock_ok (l_heap n ! p)) \<and>
      (\<forall>S p. l_so n S = Some p \<longrightarrow> p \<in> l_watch n \<and> Reply (sock_m (l_heap n ! p)) = S) \<and>
      (\<forall>p \<in> l_watch n. p < length (l_heap n) \<and> l_so n (Reply (sock_m (l_heap n ! p))) = Some p) \<and>
      (\<forall>p < length (l_heap n). \<not> ch_closed (sock_close (l_heap n ! p)) \<longrightarrow> p \<in> l_watch n))"

text \<open>
  The listener is well-formed, subject \<open>S\<close> is registered to socket \<open>p\<close>, the socket's
  close signal is not released, and the socket holds the frames \<open>q\<close>.
\<close>

definition tracks :: "ntportListener \<Rightarrow> subject \<Rightarrow> nat \<Rightarrow> Msg list \<Rightarrow> bool" where
  "tracks n S p q =
     (listener_inv n \<and> l_so n S = Some p \<and> \<not> ch_closed (sock_close (l_heap n ! p)) \<and>
      pending (l_heap n ! p) = q)"

section \<open>The transport factory normalises its addresses\<close>

lemma normalize_loop_acc:
  "normalize_loop as acc = acc @ map canonical (filter (\<lambda>a. a \<noteq> []) as)"
  by (induction as arbitrary: acc) (simp_all add: canonical_def)

text \<open>
  C7, as the claim states it, fails: \<open>NewTransport\<close> tests \<open>len(addr) == 0\<close>, so a blank
  entry that is not empty (here a single space) is not skipped. It is stored with the
  scheme in front, and the default endpoint is not used.
\<close>

theorem NewTransport_keeps_blank_entry:
  "NewTransport ''nats://localhost:4222'' ['' ''] = [''nats:// ''] \<and>
   normalized_spec ''nats://localhost:4222'' ['' ''] = [''nats://localhost:4222''] \<and>
   NewTransport ''nats://localhost:4222'' ['' ''] \<noteq> normalized_spec ''nats://localhost:4222'' ['' '']"
  by (simp add: NewTransport_def normalized_spec_def blank_def is_space_def canonical_def
      HasPrefix_def scheme_def)

text \<open>
  C7, amended. \<open>NewTransport\<close> stores the configured addresses with every entry of
  length 0 skipped, every other entry (an entry of white space too) without the prefix
  \<open>nats://\<close> given that prefix, prefixed entries unchanged and the order kept; when
  nothing remains the stored list is exactly the default endpoint.
\<close>

theorem NewTransport_normalizes:
  "NewTransport DefaultURL addrs = normalized_nonempty DefaultURL addrs"
  by (simp add: NewTransport_def normalized_nonempty_def normalize_loop_acc)

theorem NewTransport_normalizes_witness:
  "NewTransport ''nats://localhost:4222'' ['''', ''10.0.0.1:4222'', ''nats://b:4222''] =
     [''nats://10.0.0.1:4222'', ''nats://b:4222''] \<and>
   NewTransport ''nats://localhost:4222'' ['''', ''''] = [''nats://localhost:4222''] \<and>
   NewTransport ''nats://localhost:4222'' ['' ''] = [''nats:// '']"
  using NewTransport_normalizes [of "''nats://localhost:4222''" "['''', ''10.0.0.1:4222'', ''nats://b:4222'']"]
    NewTransport_normalizes [of "''nats://localhost:4222''" "['''', '''']"]
    NewTransport_normalizes [of "''nats://localhost:4222''" "['' '']"]
  by (simp add: normalized_nonempty_def canonical_def HasPrefix_def scheme_def)

section \<open>Sockets and listeners stay well-formed\<close>

lemma sock_ok_new: "sock_ok (new_socket m)"
  by (simp add: sock_ok_def new_socket_def make_chan_def)

lemma enqueue_ok:
  assumes "sock_ok s"
  shows "\<exists>s'. promote (s\<lparr>sock_bl := sock_bl s @ [m]\<rparr>) = Inr s' \<and> sock_ok s' \<and>
           pending s' = pending s @ [m] \<and> sock_m s' = sock_m s \<and> sock_close s' = sock_close s \<and> sock_once s' = sock_once s"
  using assms
  by (cases "sock_bl s"; cases "ch_buf (sock_r s)")
     (auto simp: sock_ok_def promote_def chan_try_send_def pending_def)

lemma take_frame_ok:
  assumes "sock_ok s"
  shows "(pending s = [] \<and> take_frame s = TakeWait) \<or>
         (\<exists>f q s'. pending s = f # q \<and> take_frame s = Took f s' \<and> sock_ok s' \<and> pending s' = q \<and>
             sock_m s' = sock_m s \<and> sock_close s' = sock_close s \<and> sock_once s' = sock_once s)"
  using assms
  by (cases "sock_bl s"; cases "ch_buf (sock_r s)")
     (auto simp: sock_ok_def take_frame_def chan_recv_def promote_def chan_try_send_def pending_def)

lemma Close_ok:
  assumes "sock_ok s"
  shows "\<exists>es s'. Close s = Inr (es, s') \<and> sock_ok s' \<and> ch_closed (sock_close s') \<and>
           pending s' = pending s \<and> sock_m s' = sock_m s"
  using assms
  by (auto simp: sock_ok_def Close_def chan_close_def pending_def)

lemma inv_init: "listener_inv (new_listener a)"
  by (simp add: listener_inv_def new_listener_def)




lemma invD_ok: "listener_inv n \<Longrightarrow> p < length (l_heap n) \<Longrightarrow> sock_ok (l_heap n ! p)"
  by (simp add: listener_inv_def)

lemma invD_so:
  "listener_inv n \<Longrightarrow> l_so n S = Some p \<Longrightarrow> p \<in> l_watch n \<and> Reply (sock_m (l_heap n ! p)) = S"
  by (simp add: listener_inv_def)

lemma invD_watch:
  "listener_inv n \<Longrightarrow> p \<in> l_watch n \<Longrightarrow>
     p < length (l_heap n) \<and> l_so n (Reply (sock_m (l_heap n ! p))) = Some p"
  by (simp add: listener_inv_def)

lemma invD_open:
  "listener_inv n \<Longrightarrow> p < length (l_heap n) \<Longrightarrow> \<not> ch_closed (sock_close (l_heap n ! p)) \<Longrightarrow>
     p \<in> l_watch n"
  by (simp add: listener_inv_def)

lemma invI:
  assumes "\<And>p. p < length (l_heap n) \<Longrightarrow> sock_ok (l_heap n ! p)"
    and "\<And>S p. l_so n S = Some p \<Longrightarrow> p \<in> l_watch n \<and> Reply (sock_m (l_heap n ! p)) = S"
    and "\<And>p. p \<in> l_watch n \<Longrightarrow>
           p < length (l_heap n) \<and> l_so n (Reply (sock_m (l_heap n ! p))) = Some p"
    and "\<And>p. p < length (l_heap n) \<Longrightarrow> \<not> ch_closed (sock_close (l_heap n ! p)) \<Longrightarrow>
           p \<in> l_watch n"
  shows "listener_inv n"
  using assms unfolding listener_inv_def by blast

lemma inv_update:
  assumes "listener_inv n" and "p < length (l_heap n)" and "sock_ok s'"
    and "sock_m s' = sock_m (l_heap n ! p)"
    and "ch_closed (sock_close (l_heap n ! p)) \<longrightarrow> ch_closed (sock_close s')"
  shows "listener_inv (n\<lparr>l_heap := (l_heap n)[p := s']\<rparr>)"
proof (rule invI)
  let ?h = "(l_heap n)[p := s']"
  have m: "sock_m (?h ! q) = sock_m (l_heap n ! q)" if "q < length (l_heap n)" for q
    using that assms(4) by (cases "q = p") simp_all
  fix q
  show "sock_ok (l_heap (n\<lparr>l_heap := ?h\<rparr>) ! q)" if "q < length (l_heap (n\<lparr>l_heap := ?h\<rparr>))"
    using that assms(3) invD_ok [OF assms(1), of q] by (cases "q = p") simp_all
  show "q \<in> l_watch (n\<lparr>l_heap := ?h\<rparr>) \<and> Reply (sock_m (l_heap (n\<lparr>l_heap := ?h\<rparr>) ! q)) = S"
    if "l_so (n\<lparr>l_heap := ?h\<rparr>) S = Some q" for S
    using that invD_so [OF assms(1), of S q] invD_watch [OF assms(1), of q] m [of q] by simp
  show "q < length (l_heap (n\<lparr>l_heap := ?h\<rparr>)) \<and>
        l_so (n\<lparr>l_heap := ?h\<rparr>) (Reply (sock_m (l_heap (n\<lparr>l_heap := ?h\<rparr>) ! q))) = Some q"
    if "q \<in> l_watch (n\<lparr>l_heap := ?h\<rparr>)"
    using that invD_watch [OF assms(1), of q] m [of q] by simp
  show "q \<in> l_watch (n\<lparr>l_heap := ?h\<rparr>)"
    if "q < length (l_heap (n\<lparr>l_heap := ?h\<rparr>))"
      and "\<not> ch_closed (sock_close (l_heap (n\<lparr>l_heap := ?h\<rparr>) ! q))"
    using that assms(5) invD_open [OF assms(1), of q] by (cases "q = p") simp_all
qed

lemma inv_create:
  assumes "listener_inv n" and "l_so n (Reply m) = None"
  shows "listener_inv (n\<lparr>l_heap := l_heap n @ [new_socket m],
                    l_so := (l_so n)(Reply m \<mapsto> length (l_heap n)),
                    l_fn := l_fn n @ [length (l_heap n)],
                    l_watch := insert (length (l_heap n)) (l_watch n)\<rparr>)"
    (is "listener_inv ?n'")
proof (rule invI)
  fix q
  have new: "sock_m (new_socket m) = m" "\<not> ch_closed (sock_close (new_socket m))"
    by (simp_all add: new_socket_def make_chan_def)
  show "sock_ok (l_heap ?n' ! q)" if "q < length (l_heap ?n')"
    using that invD_ok [OF assms(1), of q] sock_ok_new [of m]
    by (cases "q = length (l_heap n)") (simp_all add: nth_append)
  show "q \<in> l_watch ?n' \<and> Reply (sock_m (l_heap ?n' ! q)) = S" if "l_so ?n' S = Some q" for S
  proof (cases "S = Reply m")
    case True
    then show ?thesis using that new by (auto simp: nth_append)
  next
    case False
    then have "l_so n S = Some q" using that by simp
    then show ?thesis
      using invD_so [OF assms(1), of S q] invD_watch [OF assms(1), of q]
      by (simp add: nth_append)
  qed
  show "q < length (l_heap ?n') \<and> l_so ?n' (Reply (sock_m (l_heap ?n' ! q))) = Some q"
    if "q \<in> l_watch ?n'"
  proof (cases "q = length (l_heap n)")
    case True
    then show ?thesis using new by (auto simp: nth_append)
  next
    case False
    then have w: "q \<in> l_watch n" using that by simp
    have "Reply (sock_m (l_heap n ! q)) \<noteq> Reply m"
      using invD_watch [OF assms(1) w] assms(2) by auto
    then show ?thesis
      using invD_watch [OF assms(1) w] by (simp add: nth_append)
  qed
  show "q \<in> l_watch ?n'"
    if "q < length (l_heap ?n')" and "\<not> ch_closed (sock_close (l_heap ?n' ! q))"
    using that invD_open [OF assms(1), of q]
    by (cases "q = length (l_heap n)") (simp_all add: nth_append)
qed


lemma inv_lookup_or_create:
  assumes "listener_inv n" and "lookup_or_create m n = (p, n1)"
  shows "listener_inv n1 \<and> p < length (l_heap n1)"
proof (cases "l_so n (Reply m)")
  case None
  have "n1 = n\<lparr>l_heap := l_heap n @ [new_socket m],
                    l_so := (l_so n)(Reply m \<mapsto> length (l_heap n)),
                    l_fn := l_fn n @ [length (l_heap n)],
                    l_watch := insert (length (l_heap n)) (l_watch n)\<rparr>" and "p = length (l_heap n)"
    using assms(2) None by (auto simp: lookup_or_create_def Let_def)
  then show ?thesis
    using inv_create [OF assms(1) None] by simp
next
  case (Some q)
  then have "n1 = n" and "p = q"
    using assms(2) by (simp_all add: lookup_or_create_def)
  then show ?thesis
    using assms(1) invD_so [OF assms(1) Some] invD_watch [OF assms(1), of q] by simp
qed

lemma inv_accept_frame:
  assumes "listener_inv n"
  shows "\<exists>n'. accept_frame m n = Inr n' \<and> listener_inv n'"
proof -
  obtain p n1 where lc: "lookup_or_create m n = (p, n1)"
    by (cases "lookup_or_create m n")
  have n1: "listener_inv n1" and p: "p < length (l_heap n1)"
    using inv_lookup_or_create [OF assms lc] by auto
  let ?sock = "l_heap n1 ! p"
  have ok: "sock_ok ?sock"
    using n1 p by (rule invD_ok)
  show ?thesis
  proof (cases "chan_ready (sock_close ?sock)")
    case True
    then show ?thesis
      using lc n1 by (simp add: accept_frame_def)
  next
    case False
    obtain s' where s': "promote (?sock\<lparr>sock_bl := sock_bl ?sock @ [m]\<rparr>) = Inr s'"
      "sock_ok s'" "sock_m s' = sock_m ?sock" "sock_close s' = sock_close ?sock"
      using enqueue_ok [OF ok, of m] by auto
    have "listener_inv (n1\<lparr>l_heap := (l_heap n1)[p := s']\<rparr>)"
      by (rule inv_update [OF n1 p s'(2,3)]) (simp add: s'(4))
    then show ?thesis
      using lc False s'(1) by (simp add: accept_frame_def Let_def)
  qed
qed

lemma inv_handler_close:
  assumes "listener_inv n"
  shows "listener_inv (handler_close p n)"
proof (cases "p < length (l_heap n)")
  case False
  then show ?thesis using assms by (simp add: handler_close_def)
next
  case True
  then have ok: "sock_ok (l_heap n ! p)"
    using assms by (simp add: invD_ok)
  obtain es s' where c: "Close (l_heap n ! p) = Inr (es, s')" "sock_ok s'"
    "ch_closed (sock_close s')" "sock_m s' = sock_m (l_heap n ! p)"
    using Close_ok [OF ok] by auto
  have "listener_inv (n\<lparr>l_heap := (l_heap n)[p := s']\<rparr>)"
    by (rule inv_update [OF assms True c(2,4)]) (simp add: c(3))
  then show ?thesis
    using True c(1) by (simp add: handler_close_def)
qed

lemma inv_handler_recv:
  assumes "listener_inv n"
  shows "listener_inv (handler_recv p n)"
proof (cases "p < length (l_heap n)")
  case False
  then show ?thesis using assms by (simp add: handler_recv_def)
next
  case True
  then have ok: "sock_ok (l_heap n ! p)"
    using assms by (simp add: invD_ok)
  from take_frame_ok [OF ok] show ?thesis
  proof
    assume "pending (l_heap n ! p) = [] \<and> take_frame (l_heap n ! p) = TakeWait"
    then show ?thesis using assms True by (simp add: handler_recv_def)
  next
    assume "\<exists>f q s'. pending (l_heap n ! p) = f # q \<and> take_frame (l_heap n ! p) = Took f s' \<and>
        sock_ok s' \<and> pending s' = q \<and> sock_m s' = sock_m (l_heap n ! p) \<and>
        sock_close s' = sock_close (l_heap n ! p) \<and> sock_once s' = sock_once (l_heap n ! p)"
    then obtain f s' where t: "take_frame (l_heap n ! p) = Took f s'" "sock_ok s'"
      "sock_m s' = sock_m (l_heap n ! p)" "sock_close s' = sock_close (l_heap n ! p)"
      by auto
    have "listener_inv (n\<lparr>l_heap := (l_heap n)[p := s']\<rparr>)"
      by (rule inv_update [OF assms True t(2,3)]) (simp add: t(4))
    then show ?thesis
      using True t(1) by (simp add: handler_recv_def)
  qed
qed

lemma inv_watcher:
  assumes "listener_inv n"
  shows "listener_inv (watcher p n)"
proof (cases "p \<in> l_watch n \<and> p < length (l_heap n) \<and> chan_ready (sock_close (l_heap n ! p))")
  case False
  then have "watcher p n = n" unfolding watcher_def by (simp only: if_False)
  then show ?thesis using assms by simp
next
  case True
  let ?S = "Reply (sock_m (l_heap n ! p))"
  let ?n' = "n\<lparr>l_so := (l_so n)(?S := None), l_watch := l_watch n - {p}\<rparr>"
  have w: "watcher p n = ?n'"
    using True by (simp add: watcher_def)
  have closed: "ch_closed (sock_close (l_heap n ! p))"
    using True invD_ok [OF assms, of p] by (simp add: chan_ready_def sock_ok_def)
  have so_p: "l_so n ?S = Some p"
    using True invD_watch [OF assms, of p] by simp
  have "listener_inv ?n'"
  proof (rule invI)
    fix q
    show "sock_ok (l_heap ?n' ! q)" if "q < length (l_heap ?n')"
      using that invD_ok [OF assms, of q] by simp
    show "q \<in> l_watch ?n' \<and> Reply (sock_m (l_heap ?n' ! q)) = S" if "l_so ?n' S = Some q" for S
    proof -
      have S: "S \<noteq> ?S" and q: "l_so n S = Some q"
        using that by (auto split: if_splits)
      have "q \<noteq> p"
        using invD_so [OF assms q] S by auto
      then show ?thesis
        using invD_so [OF assms q] by simp
    qed
    show "q < length (l_heap ?n') \<and> l_so ?n' (Reply (sock_m (l_heap ?n' ! q))) = Some q"
      if "q \<in> l_watch ?n'"
    proof -
      have qw: "q \<in> l_watch n" and qp: "q \<noteq> p"
        using that by auto
      have "Reply (sock_m (l_heap n ! q)) \<noteq> ?S"
        using invD_watch [OF assms qw] so_p qp by auto
      then show ?thesis
        using invD_watch [OF assms qw] by simp
    qed
    show "q \<in> l_watch ?n'"
      if "q < length (l_heap ?n')" and "\<not> ch_closed (sock_close (l_heap ?n' ! q))"
    proof -
      have "q \<noteq> p" using that(2) closed by auto
      then show ?thesis
        using that invD_open [OF assms, of q] by simp
    qed
  qed
  then show ?thesis by (simp add: w)
qed

lemma inv_run:
  assumes "listener_inv n"
  shows "(\<forall>n'. Accept_run evs n = Polling n' \<longrightarrow> listener_inv n') \<and>
         (\<forall>e n'. Accept_run evs n = Returns e n' \<longrightarrow> listener_inv n') \<and>
         (\<forall>c. Accept_run evs n \<noteq> Crashed c)"
  using assms
proof (induction evs n rule: Accept_run.induct)
  case (1 n)
  then show ?case by simp
next
  case (2 err es n)
  then show ?case by simp
next
  case (3 m es n)
  obtain n' where n': "accept_frame m n = Inr n'" "listener_inv n'"
    using inv_accept_frame [OF "3.prems"] by blast
  show ?case
    using "3.IH" [OF n'(1) n'(2)] n'(1) by simp
next
  case (4 p es n)
  show ?case
    using "4.IH" [OF inv_handler_recv [OF "4.prems"]] by simp
next
  case (5 p es n)
  show ?case
    using "5.IH" [OF inv_handler_close [OF "5.prems"]] by simp
next
  case (6 p es n)
  show ?case
    using "6.IH" [OF inv_watcher [OF "6.prems"]] by simp
qed

lemma reachable_inv:
  assumes "Accept_run evs (new_listener a) = Polling n"
  shows "listener_inv n"
  using inv_run [OF inv_init, of evs a] assms by simp

section \<open>Socket operations\<close>

lemma Close_times_done: "sock_once s \<Longrightarrow> Close_times k s = Inr ([], s)"
  by (induction k) (simp_all add: Close_def)

text \<open>
  C3. \<open>Socket.Close\<close> is idempotent: on a socket that has not been closed, any positive
  number of \<open>Close\<close> calls returns normally every time (no panic, result nil), and
  together they release the close signal exactly once: the list of executed actions is
  the single \<open>CloseSignal\<close>, and the socket ends with the signal released and nothing else
  changed. \<open>sync.Once\<close> runs concurrent calls one at a time, so a concurrent execution is
  one of these sequences.
\<close>

theorem Close_idempotent:
  assumes "\<not> sock_once s" and "\<not> ch_closed (sock_close s)" and "0 < k"
  shows "Close_times k s =
           Inr ([CloseSignal],
                s\<lparr>sock_close := (sock_close s)\<lparr>ch_closed := True\<rparr>, sock_once := True\<rparr>)"
proof -
  obtain j where k: "k = Suc j"
    using assms(3) by (cases k) auto
  let ?s' = "s\<lparr>sock_close := (sock_close s)\<lparr>ch_closed := True\<rparr>, sock_once := True\<rparr>"
  have first: "Close s = Inr ([CloseSignal], ?s')"
    using assms(1,2) by (simp add: Close_def chan_close_def)
  have rest: "Close_times j ?s' = Inr ([], ?s')"
    by (rule Close_times_done) simp
  show ?thesis
    by (simp add: k first rest)
qed

theorem Close_idempotent_witness:
  "\<not> sock_once (new_socket \<lparr>Subject = ''srv'', Reply = ''inbox1'', Data = ''x''\<rparr>) \<and>
   \<not> ch_closed (sock_close (new_socket \<lparr>Subject = ''srv'', Reply = ''inbox1'', Data = ''x''\<rparr>)) \<and>
   (0::nat) < 3 \<and>
   Close_times 3 (new_socket \<lparr>Subject = ''srv'', Reply = ''inbox1'', Data = ''x''\<rparr>) =
     Inr ([CloseSignal],
          \<lparr>sock_m = \<lparr>Subject = ''srv'', Reply = ''inbox1'', Data = ''x''\<rparr>,
           sock_r = make_chan 1, sock_once = True,
           sock_close = \<lparr>ch_buf = [], ch_cap = 0, ch_closed = True\<rparr>, sock_bl = []\<rparr>)"
  using Close_idempotent [of "new_socket \<lparr>Subject = ''srv'', Reply = ''inbox1'', Data = ''x''\<rparr>" 3]
  by (simp add: new_socket_def make_chan_def)

text \<open>
  C10. \<open>Socket.Recv\<close> with a nil message pointer returns the error at once, whatever the
  socket holds (also where a receive would park), and leaves the socket as it was: slot,
  backlog and close signal unchanged, no frame consumed.
\<close>

theorem Recv_nil_returns_error:
  "Recv cd None s = RecvReturn (Some ErrNilMessage) None s"
  by (simp add: Recv_def)

lemmas run_defs =
  accept_frame_def lookup_or_create_def new_listener_def new_socket_def make_chan_def
  promote_def chan_try_send_def chan_ready_def handler_close_def Close_def chan_close_def
  handler_recv_def take_frame_def chan_recv_def watcher_def Recv_def decode_into_def
  text_codec_def Let_def

lemma Close_times_r:
  "Close_times k s = Inr (es, s') \<Longrightarrow> sock_r s' = sock_r s"
proof (induction k arbitrary: s es)
  case 0
  then show ?case by simp
next
  case (Suc k)
  then show ?case
    by (auto simp: Close_def chan_close_def split: if_splits sum.splits prod.splits)
qed

lemma Recv_blocked_iff:
  "Recv cd (Some v) s = RecvBlocked \<longleftrightarrow> ch_buf (sock_r s) = [] \<and> \<not> ch_closed (sock_r s)"
  by (auto simp: Recv_def take_frame_def chan_recv_def
      split: list.splits sum.splits prod.splits take_result.splits recv_result.splits)

lemma reachable_r_open:
  assumes "Accept_run evs (new_listener a) = Polling n" and "p < length (l_heap n)"
  shows "take_frame (l_heap n ! p) \<noteq> TakeEOF"
proof -
  have "listener_inv n"
    using inv_run [OF inv_init, of evs a] assms(1) by simp
  then have "sock_ok (l_heap n ! p)"
    using assms(2) by (rule invD_ok)
  then show ?thesis
    using take_frame_ok [of "l_heap n ! p"] by auto
qed

text \<open>
  C1. \<open>Recv\<close> parks on \<open><-n.r\<close> alone, and \<open>Close\<close> closes \<open>n.close\<close>, never \<open>n.r\<close>: a
  receiver parked on an empty socket stays parked after any number of \<open>Close\<close> calls.
  It does not return \<open>io.EOF\<close>; the branch of \<open>Recv\<close> that returns it needs \<open>n.r\<close>
  closed, which nothing in the file does (\<open>reachable_r_open\<close>: no socket of a running
  listener ever takes that branch).
\<close>

theorem Close_leaves_receiver_parked:
  assumes "Recv cd (Some v) s = RecvBlocked" and "Close_times k s = Inr (es, s')"
  shows "Recv cd (Some v) s' = RecvBlocked"
  using assms Close_times_r [OF assms(2)] by (simp add: Recv_blocked_iff)

theorem Close_leaves_receiver_parked_witness:
  "Recv text_codec (Some ''old'') (new_socket \<lparr>Subject = ''srv'', Reply = ''inbox1'', Data = ''ping''\<rparr>)
     = RecvBlocked \<and>
   Close_times 1 (new_socket \<lparr>Subject = ''srv'', Reply = ''inbox1'', Data = ''ping''\<rparr>) =
     Inr ([CloseSignal],
          \<lparr>sock_m = \<lparr>Subject = ''srv'', Reply = ''inbox1'', Data = ''ping''\<rparr>,
           sock_r = make_chan 1, sock_once = True,
           sock_close = \<lparr>ch_buf = [], ch_cap = 0, ch_closed = True\<rparr>, sock_bl = []\<rparr>) \<and>
   Recv text_codec (Some ''old'')
     \<lparr>sock_m = \<lparr>Subject = ''srv'', Reply = ''inbox1'', Data = ''ping''\<rparr>,
      sock_r = make_chan 1, sock_once = True,
      sock_close = \<lparr>ch_buf = [], ch_cap = 0, ch_closed = True\<rparr>, sock_bl = []\<rparr> = RecvBlocked"
proof -
  let ?s = "new_socket \<lparr>Subject = ''srv'', Reply = ''inbox1'', Data = ''ping''\<rparr>"
  let ?s' = "\<lparr>sock_m = \<lparr>Subject = ''srv'', Reply = ''inbox1'', Data = ''ping''\<rparr>,
           sock_r = make_chan 1, sock_once = True,
           sock_close = \<lparr>ch_buf = [], ch_cap = 0, ch_closed = True\<rparr>, sock_bl = []\<rparr>"
  have a: "Recv text_codec (Some ''old'') ?s = RecvBlocked"
    by (simp add: run_defs)
  have b: "Close_times 1 ?s = Inr ([CloseSignal], ?s')"
    by (simp add: run_defs)
  show ?thesis
    using a b Close_leaves_receiver_parked [OF a b] by simp
qed

section \<open>Demultiplexing\<close>

lemma accept_frame_existing:
  assumes "l_so n (Reply f) = Some p" and "p < length (l_heap n)" and "sock_ok (l_heap n ! p)"
    and "\<not> ch_closed (sock_close (l_heap n ! p))"
  shows "\<exists>s'. accept_frame f n = Inr (n\<lparr>l_heap := (l_heap n)[p := s']\<rparr>) \<and> sock_ok s' \<and>
           pending s' = pending (l_heap n ! p) @ [f] \<and> sock_close s' = sock_close (l_heap n ! p)"
proof -
  obtain s' where s': "promote ((l_heap n ! p)\<lparr>sock_bl := sock_bl (l_heap n ! p) @ [f]\<rparr>) = Inr s'"
    "sock_ok s'" "pending s' = pending (l_heap n ! p) @ [f]" "sock_close s' = sock_close (l_heap n ! p)"
    using enqueue_ok [OF assms(3), of f] by auto
  have nr: "\<not> chan_ready (sock_close (l_heap n ! p))"
    using assms(3,4) by (simp add: chan_ready_def sock_ok_def)
  have "accept_frame f n = Inr (n\<lparr>l_heap := (l_heap n)[p := s']\<rparr>)"
    using assms(1) nr s'(1) by (simp add: accept_frame_def lookup_or_create_def Let_def)
  then show ?thesis using s' by blast
qed

lemma accept_frame_fresh:
  assumes "l_so n (Reply f) = None"
  shows "\<exists>n'. accept_frame f n = Inr n' \<and> l_so n' (Reply f) = Some (length (l_heap n)) \<and>
           length (l_heap n) < length (l_heap n') \<and> sock_ok (l_heap n' ! length (l_heap n)) \<and>
           \<not> ch_closed (sock_close (l_heap n' ! length (l_heap n))) \<and>
           pending (l_heap n' ! length (l_heap n)) = [f] \<and>
           sock_m (l_heap n' ! length (l_heap n)) = f \<and>
           (\<forall>q < length (l_heap n). l_heap n' ! q = l_heap n ! q)"
proof -
  obtain s' where s': "promote ((new_socket f)\<lparr>sock_bl := sock_bl (new_socket f) @ [f]\<rparr>) = Inr s'"
    "sock_ok s'" "pending s' = pending (new_socket f) @ [f]" "sock_close s' = sock_close (new_socket f)"
    "sock_m s' = sock_m (new_socket f)"
    using enqueue_ok [OF sock_ok_new, of f f] by auto
  have nr: "\<not> chan_ready (sock_close (new_socket f))"
    by (simp add: chan_ready_def new_socket_def make_chan_def)
  let ?p = "length (l_heap n)"
  let ?n' = "n\<lparr>l_heap := l_heap n @ [s'], l_so := (l_so n)(Reply f \<mapsto> ?p),
                l_fn := l_fn n @ [?p], l_watch := insert ?p (l_watch n)\<rparr>"
  have "accept_frame f n = Inr ?n'"
    using assms nr s'(1) by (simp add: accept_frame_def lookup_or_create_def Let_def)
  moreover have "pending s' = [f]" "\<not> ch_closed (sock_close s')" "sock_m s' = f"
    using s'(3,4,5) by (simp_all add: pending_def new_socket_def make_chan_def)
  ultimately show ?thesis
    using s'(2) by (intro exI [of _ ?n']) (simp add: nth_append)
qed

lemma Recv_pending:
  assumes "sock_ok s" and "pending s = f # q"
  shows "\<exists>s'. Recv cd (Some v) s = RecvReturn (fst (decode_into cd f v)) (snd (decode_into cd f v)) s' \<and>
           sock_ok s' \<and> pending s' = q"
  using take_frame_ok [OF assms(1)] assms(2)
  by (auto simp: Recv_def split: prod.splits)

lemma Recv_empty:
  assumes "sock_ok s" and "pending s = []"
  shows "Recv cd (Some v) s = RecvBlocked"
  using take_frame_ok [OF assms(1)] assms(2)
  by (auto simp: Recv_def)

lemma Recv_each_pending:
  assumes "sock_ok s" and "pending s = fs" and "length vs = length fs"
  shows "\<exists>s'. Recv_each cd vs s = (map2 (decode_into cd) fs vs, s') \<and> sock_ok s' \<and> pending s' = []"
  using assms
proof (induction vs arbitrary: s fs)
  case Nil
  then show ?case by simp
next
  case (Cons v vs)
  then obtain f q where fs: "fs = f # q" and len: "length vs = length q"
    by (cases fs) auto
  obtain s1 where s1: "Recv cd (Some v) s = RecvReturn (fst (decode_into cd f v)) (snd (decode_into cd f v)) s1"
    "sock_ok s1" "pending s1 = q"
    using Recv_pending [OF Cons.prems(1), of f q cd v] Cons.prems(2) fs by auto
  obtain s' where s': "Recv_each cd vs s1 = (map2 (decode_into cd) q vs, s')" "sock_ok s'" "pending s' = []"
    using Cons.IH [OF s1(2,3) len] by blast
  show ?case
    using s1(1) s' by (simp add: fs)
qed

lemma tracks_bound: "tracks n S p q \<Longrightarrow> p < length (l_heap n)"
  using invD_so [of n S p] invD_watch [of n p] by (simp add: tracks_def)

lemma tracks_other_update:
  assumes "tracks n S p q" and "listener_inv (n\<lparr>l_heap := (l_heap n)[r := s']\<rparr>)" and "r \<noteq> p"
  shows "tracks (n\<lparr>l_heap := (l_heap n)[r := s']\<rparr>) S p q"
  using assms by (simp add: tracks_def)

lemma tracks_accept_same:
  assumes "tracks n S p q" and "Reply m = S"
  shows "\<exists>n'. accept_frame m n = Inr n' \<and> tracks n' S p (q @ [m])"
proof -
  have inv: "listener_inv n" and so: "l_so n (Reply m) = Some p"
    and op: "\<not> ch_closed (sock_close (l_heap n ! p))" and q: "pending (l_heap n ! p) = q"
    using assms by (simp_all add: tracks_def)
  have p: "p < length (l_heap n)"
    using assms(1) by (rule tracks_bound)
  obtain s' where s': "accept_frame m n = Inr (n\<lparr>l_heap := (l_heap n)[p := s']\<rparr>)"
    "pending s' = pending (l_heap n ! p) @ [m]" "sock_close s' = sock_close (l_heap n ! p)"
    using accept_frame_existing [OF so p invD_ok [OF inv p] op] by blast
  obtain n' where n': "accept_frame m n = Inr n'" "listener_inv n'"
    using inv_accept_frame [OF inv] by blast
  have eq: "n' = n\<lparr>l_heap := (l_heap n)[p := s']\<rparr>"
    using n'(1) s'(1) by simp
  have "listener_inv (n\<lparr>l_heap := (l_heap n)[p := s']\<rparr>)"
    using n'(2) eq by simp
  then have "tracks (n\<lparr>l_heap := (l_heap n)[p := s']\<rparr>) S p (q @ [m])"
    using s'(2,3) so op q p assms(2) by (simp add: tracks_def)
  then show ?thesis
    using s'(1) by blast
qed

lemma tracks_accept_other:
  assumes "tracks n S p q" and "Reply m \<noteq> S"
  shows "\<exists>n'. accept_frame m n = Inr n' \<and> tracks n' S p q"
proof -
  have inv: "listener_inv n" and so: "l_so n S = Some p"
    using assms(1) by (simp_all add: tracks_def)
  have p: "p < length (l_heap n)"
    using assms(1) by (rule tracks_bound)
  obtain n' where n': "accept_frame m n = Inr n'" "listener_inv n'"
    using inv_accept_frame [OF inv] by blast
  obtain r n1 where lc: "lookup_or_create m n = (r, n1)"
    by (cases "lookup_or_create m n")
  have all: "r \<noteq> p \<and> l_so n1 S = Some p \<and> l_heap n1 ! p = l_heap n ! p \<and>
      p < length (l_heap n1)"
  proof (cases "l_so n (Reply m)")
    case None
    then have "r = length (l_heap n)"
      and "n1 = n\<lparr>l_heap := l_heap n @ [new_socket m],
                  l_so := (l_so n)(Reply m \<mapsto> length (l_heap n)),
                  l_fn := l_fn n @ [length (l_heap n)],
                  l_watch := insert (length (l_heap n)) (l_watch n)\<rparr>"
      using lc by (auto simp: lookup_or_create_def Let_def)
    then show ?thesis
      using p so assms(2) by (simp add: nth_append)
  next
    case (Some r')
    then have "r = r'" and "n1 = n"
      using lc by (simp_all add: lookup_or_create_def)
    moreover have "r' \<noteq> p"
      using invD_so [OF inv Some] invD_so [OF inv so] assms(2) by auto
    ultimately show ?thesis
      using so p by simp
  qed
  then have r: "r \<noteq> p" and n1: "l_so n1 S = Some p" "l_heap n1 ! p = l_heap n ! p"
    "p < length (l_heap n1)"
    by simp_all
  have "l_so n' S = Some p \<and> l_heap n' ! p = l_heap n ! p"
    using n'(1) lc r n1
    by (auto simp: accept_frame_def Let_def split: if_splits sum.splits)
  then show ?thesis
    using n' assms(1) by (auto simp: tracks_def)
qed

lemma tracks_handler_close:
  assumes "tracks n S p q" and "r \<noteq> p"
  shows "tracks (handler_close r n) S p q"
proof -
  have inv: "listener_inv (handler_close r n)"
    using assms(1) by (simp add: tracks_def inv_handler_close)
  have "l_so (handler_close r n) = l_so n \<and> l_heap (handler_close r n) ! p = l_heap n ! p"
    using assms(2) by (auto simp: handler_close_def split: sum.splits)
  then show ?thesis
    using inv assms(1) by (simp add: tracks_def)
qed

lemma tracks_handler_recv:
  assumes "tracks n S p q" and "r \<noteq> p"
  shows "tracks (handler_recv r n) S p q"
proof -
  have inv: "listener_inv (handler_recv r n)"
    using assms(1) by (simp add: tracks_def inv_handler_recv)
  have "l_so (handler_recv r n) = l_so n \<and> l_heap (handler_recv r n) ! p = l_heap n ! p"
    using assms(2)
    by (auto simp: handler_recv_def handler_close_def split: sum.splits take_result.splits)
  then show ?thesis
    using inv assms(1) by (simp add: tracks_def)
qed

lemma tracks_watcher:
  assumes "tracks n S p q"
  shows "tracks (watcher r n) S p q"
proof (cases "r \<in> l_watch n \<and> r < length (l_heap n) \<and> chan_ready (sock_close (l_heap n ! r))")
  case False
  then have "watcher r n = n"
    unfolding watcher_def by (simp only: if_False)
  then show ?thesis using assms by simp
next
  case True
  have inv: "listener_inv n" and so: "l_so n S = Some p"
    and op: "\<not> ch_closed (sock_close (l_heap n ! p))"
    using assms by (simp_all add: tracks_def)
  have p: "p < length (l_heap n)"
    using assms by (rule tracks_bound)
  have "\<not> chan_ready (sock_close (l_heap n ! p))"
    using invD_ok [OF inv p] op by (simp add: chan_ready_def sock_ok_def)
  then have rp: "r \<noteq> p"
    using True by auto
  have "l_so n (Reply (sock_m (l_heap n ! r))) = Some r"
    using invD_watch [OF inv, of r] True by simp
  then have ne: "Reply (sock_m (l_heap n ! r)) \<noteq> S"
    using so rp by auto
  have w: "watcher r n = n\<lparr>l_so := (l_so n)(Reply (sock_m (l_heap n ! r)) := None),
             l_watch := l_watch n - {r}\<rparr>"
    using True by (simp add: watcher_def)
  have "listener_inv (watcher r n)"
    using inv by (rule inv_watcher)
  then show ?thesis
    using assms ne unfolding w by (simp add: tracks_def)
qed

lemma tracks_run:
  assumes "tracks n S p q"
    and "HandlerRecv p \<notin> set evs" and "HandlerClose p \<notin> set evs"
    and "\<forall>e. Poll (Inl e) \<in> set evs \<longrightarrow> e = ErrTimeout"
  shows "\<exists>n'. Accept_run evs n = Polling n' \<and> tracks n' S p (q @ frames_for S evs)"
  using assms
proof (induction evs arbitrary: n q)
  case Nil
  then show ?case by simp
next
  case (Cons x evs)
  have rest: "HandlerRecv p \<notin> set evs" "HandlerClose p \<notin> set evs"
    "\<forall>e. Poll (Inl e) \<in> set evs \<longrightarrow> e = ErrTimeout"
    using Cons.prems(2,3,4) by simp_all
  show ?case
  proof (cases x)
    case (Poll r)
    show ?thesis
    proof (cases r)
      case (Inl e)
      then have "e = ErrTimeout"
        using Cons.prems(4) Poll by simp
      then show ?thesis
        using Cons.IH [OF Cons.prems(1) rest] Poll Inl by simp
    next
      case (Inr m)
      show ?thesis
      proof (cases "Reply m = S")
        case True
        obtain n1 where n1: "accept_frame m n = Inr n1" "tracks n1 S p (q @ [m])"
          using tracks_accept_same [OF Cons.prems(1) True] by blast
        show ?thesis
          using Cons.IH [OF n1(2) rest] n1(1) Poll Inr True by simp
      next
        case False
        obtain n1 where n1: "accept_frame m n = Inr n1" "tracks n1 S p q"
          using tracks_accept_other [OF Cons.prems(1) False] by blast
        show ?thesis
          using Cons.IH [OF n1(2) rest] n1(1) Poll Inr False by simp
      qed
    qed
  next
    case (HandlerRecv r)
    then have "r \<noteq> p" using Cons.prems(2) by auto
    then show ?thesis
      using Cons.IH [OF tracks_handler_recv [OF Cons.prems(1)] rest] HandlerRecv by simp
  next
    case (HandlerClose r)
    then have "r \<noteq> p" using Cons.prems(3) by auto
    then show ?thesis
      using Cons.IH [OF tracks_handler_close [OF Cons.prems(1)] rest] HandlerClose by simp
  next
    case (Watcher r)
    show ?thesis
      using Cons.IH [OF tracks_watcher [OF Cons.prems(1)] rest] Watcher by simp
  qed
qed

lemma tracks_Recv_each:
  assumes "tracks n S p q" and "length vs = length q"
  shows "l_so n S = Some p \<and>
         (case Recv_each cd vs (l_heap n ! p) of
            (rs, s) \<Rightarrow> rs = map2 (decode_into cd) q vs \<and> Recv cd (Some v) s = RecvBlocked)"
proof -
  have ok: "sock_ok (l_heap n ! p)" and q: "pending (l_heap n ! p) = q"
    and so: "l_so n S = Some p"
    using assms(1) invD_ok [OF _ tracks_bound [OF assms(1)]] by (simp_all add: tracks_def)
  obtain s where s: "Recv_each cd vs (l_heap n ! p) = (map2 (decode_into cd) q vs, s)"
    "sock_ok s" "pending s = []"
    using Recv_each_pending [OF ok q assms(2)] by blast
  show ?thesis
    using so s(1) Recv_empty [OF s(2,3)] by simp
qed

text \<open>
  C2. In a listener state reached by a run of the accept loop, take any schedule of the
  listener in which the socket \<open>p\<close> is neither received from nor closed and no poll fails
  other than by timing out; the schedule may hold timeouts, frames of other subjects and
  steps of the other sockets' goroutines. If the subject \<open>S\<close> is not registered and a first
  frame of \<open>S\<close> arrives, the listener creates the socket, and after the schedule as many
  consecutive \<open>Recv\<close> calls as frames of \<open>S\<close> were polled return the decodings of exactly
  those frames in arrival order; the socket is then empty (a further \<open>Recv\<close> parks), so
  no frame was lost and none delivered twice. An open socket already registered behaves
  the same way: the calls return what it held, then the frames of \<open>S\<close> polled since, in
  order.
\<close>

theorem Recv_fifo:
  assumes "Accept_run evs0 (new_listener a) = Polling n"
    and "HandlerRecv p \<notin> set evs" and "HandlerClose p \<notin> set evs"
    and "\<forall>e. Poll (Inl e) \<in> set evs \<longrightarrow> e = ErrTimeout"
  shows "(l_so n S = None \<and> Reply f = S \<and> p = length (l_heap n) \<and>
          length vs = Suc (length (frames_for S evs)) \<longrightarrow>
            (case Accept_run (Poll (Inr f) # evs) n of
               Polling n' \<Rightarrow>
                 l_so n' S = Some p \<and>
                 (case Recv_each cd vs (l_heap n' ! p) of
                    (rs, s) \<Rightarrow>
                      rs = map2 (decode_into cd) (f # frames_for S evs) vs \<and>
                      Recv cd (Some v) s = RecvBlocked)
             | Returns e n' \<Rightarrow> False
             | Crashed c \<Rightarrow> False)) \<and>
         (l_so n S = Some p \<and> \<not> ch_closed (sock_close (l_heap n ! p)) \<and>
          length vs = length (pending (l_heap n ! p) @ frames_for S evs) \<longrightarrow>
            (case Accept_run evs n of
               Polling n' \<Rightarrow>
                 l_so n' S = Some p \<and>
                 (case Recv_each cd vs (l_heap n' ! p) of
                    (rs, s) \<Rightarrow>
                      rs = map2 (decode_into cd) (pending (l_heap n ! p) @ frames_for S evs) vs \<and>
                      Recv cd (Some v) s = RecvBlocked)
             | Returns e n' \<Rightarrow> False
             | Crashed c \<Rightarrow> False))"
proof -
  have inv: "listener_inv n"
    using assms(1) by (rule reachable_inv)
  show ?thesis
  proof (intro conjI impI)
    assume h: "l_so n S = None \<and> Reply f = S \<and> p = length (l_heap n) \<and>
          length vs = Suc (length (frames_for S evs))"
    then have fresh: "l_so n (Reply f) = None"
      by simp
    obtain n1 where n1: "accept_frame f n = Inr n1" "l_so n1 (Reply f) = Some (length (l_heap n))"
      "\<not> ch_closed (sock_close (l_heap n1 ! length (l_heap n)))"
      "pending (l_heap n1 ! length (l_heap n)) = [f]"
      using accept_frame_fresh [OF fresh] by blast
    have "listener_inv n1"
      using inv_accept_frame [OF inv, of f] n1(1) by simp
    then have t1: "tracks n1 S p [f]"
      using n1(2,3,4) h by (simp add: tracks_def)
    obtain n' where n': "Accept_run evs n1 = Polling n'" "tracks n' S p ([f] @ frames_for S evs)"
      using tracks_run [OF t1 assms(2,3,4)] by blast
    have len: "length vs = length ([f] @ frames_for S evs)"
      using h by simp
    have run: "Accept_run (Poll (Inr f) # evs) n = Polling n'"
      using n1(1) n'(1) by simp
    show "case Accept_run (Poll (Inr f) # evs) n of
               Polling n' \<Rightarrow>
                 l_so n' S = Some p \<and>
                 (case Recv_each cd vs (l_heap n' ! p) of
                    (rs, s) \<Rightarrow>
                      rs = map2 (decode_into cd) (f # frames_for S evs) vs \<and>
                      Recv cd (Some v) s = RecvBlocked)
             | Returns e n' \<Rightarrow> False
             | Crashed c \<Rightarrow> False"
      unfolding run using tracks_Recv_each [OF n'(2) len, of cd v] by simp
  next
    assume h: "l_so n S = Some p \<and> \<not> ch_closed (sock_close (l_heap n ! p)) \<and>
          length vs = length (pending (l_heap n ! p) @ frames_for S evs)"
    then have t0: "tracks n S p (pending (l_heap n ! p))"
      using inv by (simp add: tracks_def)
    obtain n' where n': "Accept_run evs n = Polling n'"
      "tracks n' S p (pending (l_heap n ! p) @ frames_for S evs)"
      using tracks_run [OF t0 assms(2,3,4)] by blast
    have len: "length vs = length (pending (l_heap n ! p) @ frames_for S evs)"
      using h by simp
    show "case Accept_run evs n of
               Polling n' \<Rightarrow>
                 l_so n' S = Some p \<and>
                 (case Recv_each cd vs (l_heap n' ! p) of
                    (rs, s) \<Rightarrow>
                      rs = map2 (decode_into cd) (pending (l_heap n ! p) @ frames_for S evs) vs \<and>
                      Recv cd (Some v) s = RecvBlocked)
             | Returns e n' \<Rightarrow> False
             | Crashed c \<Rightarrow> False"
      unfolding n'(1) using tracks_Recv_each [OF n'(2) len, of cd v] by simp
  qed
qed


theorem Recv_fifo_witness:
  "(case Accept_run
           [Poll (Inr \<lparr>Subject = ''srv'', Reply = ''inbox1'', Data = ''a''\<rparr>),
            Poll (Inl ErrTimeout),
            Poll (Inr \<lparr>Subject = ''srv'', Reply = ''inbox1'', Data = ''b''\<rparr>),
            Poll (Inr \<lparr>Subject = ''srv'', Reply = ''inbox2'', Data = ''z''\<rparr>),
            HandlerRecv 1,
            Poll (Inr \<lparr>Subject = ''srv'', Reply = ''inbox1'', Data = ''c''\<rparr>),
            HandlerClose 1, Watcher 1]
           (new_listener ''srv'') of
      Polling n' \<Rightarrow>
        l_so n' ''inbox1'' = Some 0 \<and>
        (case Recv_each text_codec [''x'', ''y'', ''z''] (l_heap n' ! 0) of
           (rs, s) \<Rightarrow>
             rs = [(None, Some ''a''), (None, Some ''b''), (None, Some ''c'')] \<and>
             Recv text_codec (Some ''w'') s = RecvBlocked)
    | Returns e n' \<Rightarrow> False
    | Crashed c \<Rightarrow> False) \<and>
   (case Accept_run [Poll (Inr \<lparr>Subject = ''srv'', Reply = ''inbox1'', Data = ''a''\<rparr>)]
           (new_listener ''srv'') of
      Polling n \<Rightarrow>
        l_so n ''inbox1'' = Some 0 \<and> \<not> ch_closed (sock_close (l_heap n ! 0)) \<and>
        (case Accept_run
                [Poll (Inr \<lparr>Subject = ''srv'', Reply = ''inbox2'', Data = ''z''\<rparr>),
                 Poll (Inr \<lparr>Subject = ''srv'', Reply = ''inbox1'', Data = ''b''\<rparr>)] n of
           Polling n' \<Rightarrow>
             l_so n' ''inbox1'' = Some 0 \<and>
             (case Recv_each text_codec [''x'', ''y''] (l_heap n' ! 0) of
                (rs, s) \<Rightarrow>
                  rs = [(None, Some ''a''), (None, Some ''b'')] \<and>
                  Recv text_codec (Some ''w'') s = RecvBlocked)
         | Returns e n' \<Rightarrow> False
         | Crashed c \<Rightarrow> False)
    | Returns e n \<Rightarrow> False
    | Crashed c \<Rightarrow> False)"
proof -
  let ?a = "\<lparr>Subject = ''srv'', Reply = ''inbox1'', Data = ''a''\<rparr>"
  let ?b = "\<lparr>Subject = ''srv'', Reply = ''inbox1'', Data = ''b''\<rparr>"
  let ?c = "\<lparr>Subject = ''srv'', Reply = ''inbox1'', Data = ''c''\<rparr>"
  let ?z = "\<lparr>Subject = ''srv'', Reply = ''inbox2'', Data = ''z''\<rparr>"
  let ?evs = "[Poll (Inl ErrTimeout), Poll (Inr ?b), Poll (Inr ?z), HandlerRecv 1,
               Poll (Inr ?c), HandlerClose 1, Watcher 1]"
  let ?evs2 = "[Poll (Inr ?z), Poll (Inr ?b)]"
  have r0: "Accept_run [] (new_listener ''srv'') = Polling (new_listener ''srv'')"
    by simp
  have s1: "HandlerRecv 0 \<notin> set ?evs" "HandlerClose 0 \<notin> set ?evs"
    "\<forall>e. Poll (Inl e) \<in> set ?evs \<longrightarrow> e = ErrTimeout"
    by auto
  have h1: "l_so (new_listener ''srv'') ''inbox1'' = None \<and> Reply ?a = ''inbox1'' \<and>
      0 = length (l_heap (new_listener ''srv'')) \<and>
      length [''x'', ''y'', ''z''] = Suc (length (frames_for ''inbox1'' ?evs))"
    by (simp add: new_listener_def)
  have part1: "case Accept_run (Poll (Inr ?a) # ?evs) (new_listener ''srv'') of
      Polling n' \<Rightarrow>
        l_so n' ''inbox1'' = Some 0 \<and>
        (case Recv_each text_codec [''x'', ''y'', ''z''] (l_heap n' ! 0) of
           (rs, s) \<Rightarrow>
             rs = map2 (decode_into text_codec) (?a # frames_for ''inbox1'' ?evs) [''x'', ''y'', ''z''] \<and>
             Recv text_codec (Some ''w'') s = RecvBlocked)
    | Returns e n' \<Rightarrow> False
    | Crashed c \<Rightarrow> False"
    using Recv_fifo [OF r0 s1, of "''inbox1''" ?a "[''x'', ''y'', ''z'']" text_codec "''w''"] h1
    by blast
  obtain n where n: "Accept_run [Poll (Inr ?a)] (new_listener ''srv'') = Polling n"
    by (simp add: run_defs)
  then have so: "l_so n ''inbox1'' = Some 0" and op: "\<not> ch_closed (sock_close (l_heap n ! 0))"
    and pe: "pending (l_heap n ! 0) = [?a]"
    by (auto simp: run_defs pending_def)
  have s2: "HandlerRecv 0 \<notin> set ?evs2" "HandlerClose 0 \<notin> set ?evs2"
    "\<forall>e. Poll (Inl e) \<in> set ?evs2 \<longrightarrow> e = ErrTimeout"
    by auto
  have h2: "l_so n ''inbox1'' = Some 0 \<and> \<not> ch_closed (sock_close (l_heap n ! 0)) \<and>
      length [''x'', ''y''] = length (pending (l_heap n ! 0) @ frames_for ''inbox1'' ?evs2)"
    using so op pe by simp
  have part2: "case Accept_run ?evs2 n of
           Polling n' \<Rightarrow>
             l_so n' ''inbox1'' = Some 0 \<and>
             (case Recv_each text_codec [''x'', ''y''] (l_heap n' ! 0) of
                (rs, s) \<Rightarrow>
                  rs = map2 (decode_into text_codec) (pending (l_heap n ! 0) @ frames_for ''inbox1'' ?evs2)
                         [''x'', ''y''] \<and>
                  Recv text_codec (Some ''w'') s = RecvBlocked)
         | Returns e n' \<Rightarrow> False
         | Crashed c \<Rightarrow> False"
    using Recv_fifo [OF n s2, of "''inbox1''" ?a "[''x'', ''y'']" text_codec "''w''"] h2
    by blast
  have d1: "map2 (decode_into text_codec) (?a # frames_for ''inbox1'' ?evs) [''x'', ''y'', ''z''] =
      [(None, Some ''a''), (None, Some ''b''), (None, Some ''c'')]"
    by (simp add: decode_into_def text_codec_def)
  have d2: "map2 (decode_into text_codec) (pending (l_heap n ! 0) @ frames_for ''inbox1'' ?evs2)
      [''x'', ''y''] = [(None, Some ''a''), (None, Some ''b'')]"
    by (simp add: pe decode_into_def text_codec_def)
  show ?thesis
    unfolding n using part1 part2 so op unfolding d1 d2 by simp
qed

text \<open>
  C4. A frame whose reply subject is registered to a socket that is already closed is
  dropped: the loop iteration leaves the listener exactly as it was (no socket created,
  nothing enqueued), produces no error or panic, and the loop goes on to its next poll.
\<close>

theorem accept_frame_closed_socket:
  assumes "l_so n (Reply m) = Some p" and "ch_closed (sock_close (l_heap n ! p))"
  shows "accept_frame m n = Inr n \<and> Accept_run (Poll (Inr m) # es) n = Accept_run es n"
  using assms by (simp add: accept_frame_def lookup_or_create_def chan_ready_def)

theorem accept_frame_closed_socket_witness:
  "(case Accept_run
           [Poll (Inr \<lparr>Subject = ''srv'', Reply = ''inbox1'', Data = ''ping''\<rparr>), HandlerClose 0]
           (new_listener ''srv'') of
      Polling n \<Rightarrow>
        l_so n ''inbox1'' = Some 0 \<and> ch_closed (sock_close (l_heap n ! 0)) \<and>
        accept_frame \<lparr>Subject = ''srv'', Reply = ''inbox1'', Data = ''again''\<rparr> n = Inr n \<and>
        Accept_run [Poll (Inr \<lparr>Subject = ''srv'', Reply = ''inbox1'', Data = ''again''\<rparr>)] n = Polling n
    | Returns e n \<Rightarrow> False
    | Crashed c \<Rightarrow> False)"
proof -
  obtain n where n: "Accept_run
           [Poll (Inr \<lparr>Subject = ''srv'', Reply = ''inbox1'', Data = ''ping''\<rparr>), HandlerClose 0]
           (new_listener ''srv'') = Polling n"
    by (simp add: run_defs)
  then have a: "l_so n (Reply \<lparr>Subject = ''srv'', Reply = ''inbox1'', Data = ''again''\<rparr>) = Some 0"
    and b: "ch_closed (sock_close (l_heap n ! 0))"
    by (auto simp: run_defs)
  show ?thesis
    unfolding n using a b accept_frame_closed_socket [OF a b, of "[]"] by simp
qed

section \<open>The accept loop\<close>

lemma Accept_run_Returns_decompose:
  assumes "Accept_run evs n = Returns e n'"
  shows "\<exists>pre post. evs = pre @ Poll (Inl e) # post \<and> e \<noteq> ErrTimeout \<and>
           (\<forall>e'. Poll (Inl e') \<in> set pre \<longrightarrow> e' = ErrTimeout)"
  using assms
proof (induction evs n rule: Accept_run.induct)
  case (1 n)
  then show ?case by simp
next
  case (2 err es n)
  show ?case
  proof (cases "err = ErrTimeout")
    case True
    then obtain pre post where "es = pre @ Poll (Inl e) # post" "e \<noteq> ErrTimeout"
      "\<forall>e'. Poll (Inl e') \<in> set pre \<longrightarrow> e' = ErrTimeout"
      using "2.IH" "2.prems" by auto
    then show ?thesis
      using True by (intro exI [of _ "Poll (Inl err) # pre"] exI [of _ post]) auto
  next
    case False
    then have "err = e" using "2.prems" by simp
    then show ?thesis
      using False by (intro exI [of _ "[]"] exI [of _ es]) simp
  qed
next
  case (3 m es n)
  then obtain n1 where n1: "accept_frame m n = Inr n1" "Accept_run es n1 = Returns e n'"
    by (auto split: sum.splits)
  then obtain pre post where "es = pre @ Poll (Inl e) # post" "e \<noteq> ErrTimeout"
    "\<forall>e'. Poll (Inl e') \<in> set pre \<longrightarrow> e' = ErrTimeout"
    using "3.IH" by blast
  then show ?case
    by (intro exI [of _ "Poll (Inr m) # pre"] exI [of _ post]) auto
next
  case (4 p es n)
  then obtain pre post where "es = pre @ Poll (Inl e) # post" "e \<noteq> ErrTimeout"
    "\<forall>e'. Poll (Inl e') \<in> set pre \<longrightarrow> e' = ErrTimeout"
    by auto
  then show ?case
    by (intro exI [of _ "HandlerRecv p # pre"] exI [of _ post]) auto
next
  case (5 p es n)
  then obtain pre post where "es = pre @ Poll (Inl e) # post" "e \<noteq> ErrTimeout"
    "\<forall>e'. Poll (Inl e') \<in> set pre \<longrightarrow> e' = ErrTimeout"
    by auto
  then show ?case
    by (intro exI [of _ "HandlerClose p # pre"] exI [of _ post]) auto
next
  case (6 p es n)
  then obtain pre post where "es = pre @ Poll (Inl e) # post" "e \<noteq> ErrTimeout"
    "\<forall>e'. Poll (Inl e') \<in> set pre \<longrightarrow> e' = ErrTimeout"
    by auto
  then show ?case
    by (intro exI [of _ "Watcher p # pre"] exI [of _ post]) auto
qed

lemma Accept_run_fatal_poll:
  assumes "listener_inv n" and "e \<noteq> ErrTimeout"
    and "\<forall>e'. Poll (Inl e') \<in> set pre \<longrightarrow> e' = ErrTimeout"
  shows "\<exists>n'. Accept_run (pre @ Poll (Inl e) # post) n = Returns e n'"
  using assms
proof (induction pre arbitrary: n)
  case Nil
  then show ?case by simp
next
  case (Cons x pre)
  have rest: "\<forall>e'. Poll (Inl e') \<in> set pre \<longrightarrow> e' = ErrTimeout"
    using Cons.prems(3) by simp
  show ?case
  proof (cases x)
    case (Poll r)
    show ?thesis
    proof (cases r)
      case (Inl e')
      then have "e' = ErrTimeout"
        using Cons.prems(3) Poll by simp
      then show ?thesis
        using Cons.IH [OF Cons.prems(1,2) rest] Poll Inl by simp
    next
      case (Inr m)
      obtain n1 where n1: "accept_frame m n = Inr n1" "listener_inv n1"
        using inv_accept_frame [OF Cons.prems(1)] by blast
      show ?thesis
        using Cons.IH [OF n1(2) Cons.prems(2) rest] n1(1) Poll Inr by simp
    qed
  next
    case (HandlerRecv p)
    show ?thesis
      using Cons.IH [OF inv_handler_recv [OF Cons.prems(1)] Cons.prems(2) rest] HandlerRecv
      by simp
  next
    case (HandlerClose p)
    show ?thesis
      using Cons.IH [OF inv_handler_close [OF Cons.prems(1)] Cons.prems(2) rest] HandlerClose
      by simp
  next
    case (Watcher p)
    show ?thesis
      using Cons.IH [OF inv_watcher [OF Cons.prems(1)] Cons.prems(2) rest] Watcher
      by simp
  qed
qed

text \<open>
  C9. In a listener state reached by a run of the accept loop: a poll that times out is
  not an error (the loop goes on as if the poll had not happened), and the loop returns
  an error \<open>e\<close> exactly when some poll fails with \<open>e\<close>, \<open>e\<close> is not the timeout, and
  every failed poll before it was a timeout.
\<close>

theorem Accept_returns_iff_fatal_poll:
  assumes "Accept_run evs0 (new_listener a) = Polling n"
  shows "Accept_run (Poll (Inl ErrTimeout) # es) n = Accept_run es n \<and>
         ((\<exists>n'. Accept_run evs n = Returns e n') \<longleftrightarrow>
          (\<exists>pre post. evs = pre @ Poll (Inl e) # post \<and> e \<noteq> ErrTimeout \<and>
             (\<forall>e'. Poll (Inl e') \<in> set pre \<longrightarrow> e' = ErrTimeout)))"
proof -
  have inv: "listener_inv n"
    using assms by (rule reachable_inv)
  have "\<exists>n'. Accept_run evs n = Returns e n'"
    if "\<exists>pre post. evs = pre @ Poll (Inl e) # post \<and> e \<noteq> ErrTimeout \<and>
             (\<forall>e'. Poll (Inl e') \<in> set pre \<longrightarrow> e' = ErrTimeout)"
    using that Accept_run_fatal_poll [OF inv] by blast
  then show ?thesis
    using Accept_run_Returns_decompose [of evs n e] by auto
qed

theorem Accept_returns_iff_fatal_poll_witness:
  "Accept_run [Poll (Inr \<lparr>Subject = ''srv'', Reply = ''inbox1'', Data = ''ping''\<rparr>)] (new_listener ''srv'') =
     Polling
       \<lparr>l_addr = ''srv'', l_so = [''inbox1'' \<mapsto> 0],
        l_heap = [\<lparr>sock_m = \<lparr>Subject = ''srv'', Reply = ''inbox1'', Data = ''ping''\<rparr>,
                   sock_r = \<lparr>ch_buf = [\<lparr>Subject = ''srv'', Reply = ''inbox1'', Data = ''ping''\<rparr>],
                             ch_cap = 1, ch_closed = False\<rparr>,
                   sock_once = False, sock_close = make_chan 0, sock_bl = []\<rparr>],
        l_watch = {0}, l_fn = [0]\<rparr> \<and>
   (\<exists>n'. Accept_run
           [Poll (Inl ErrTimeout),
            Poll (Inr \<lparr>Subject = ''srv'', Reply = ''inbox2'', Data = ''x''\<rparr>),
            Poll (Inl (ErrBus ''nats: connection closed'')),
            Poll (Inr \<lparr>Subject = ''srv'', Reply = ''inbox2'', Data = ''y''\<rparr>)]
           \<lparr>l_addr = ''srv'', l_so = [''inbox1'' \<mapsto> 0],
            l_heap = [\<lparr>sock_m = \<lparr>Subject = ''srv'', Reply = ''inbox1'', Data = ''ping''\<rparr>,
                   sock_r = \<lparr>ch_buf = [\<lparr>Subject = ''srv'', Reply = ''inbox1'', Data = ''ping''\<rparr>],
                             ch_cap = 1, ch_closed = False\<rparr>,
                   sock_once = False, sock_close = make_chan 0, sock_bl = []\<rparr>],
            l_watch = {0}, l_fn = [0]\<rparr> =
         Returns (ErrBus ''nats: connection closed'') n')"
proof -
  let ?n = "\<lparr>l_addr = ''srv'', l_so = [''inbox1'' \<mapsto> 0],
        l_heap = [\<lparr>sock_m = \<lparr>Subject = ''srv'', Reply = ''inbox1'', Data = ''ping''\<rparr>,
                   sock_r = \<lparr>ch_buf = [\<lparr>Subject = ''srv'', Reply = ''inbox1'', Data = ''ping''\<rparr>],
                             ch_cap = 1, ch_closed = False\<rparr>,
                   sock_once = False, sock_close = make_chan 0, sock_bl = []\<rparr>],
        l_watch = {0::nat}, l_fn = [0::nat]\<rparr>"
  let ?pre = "[Poll (Inl ErrTimeout), Poll (Inr \<lparr>Subject = ''srv'', Reply = ''inbox2'', Data = ''x''\<rparr>)]"
  let ?post = "[Poll (Inr \<lparr>Subject = ''srv'', Reply = ''inbox2'', Data = ''y''\<rparr>)]"
  let ?e = "ErrBus ''nats: connection closed''"
  have r: "Accept_run [Poll (Inr \<lparr>Subject = ''srv'', Reply = ''inbox1'', Data = ''ping''\<rparr>)]
             (new_listener ''srv'') = Polling ?n"
    by (simp add: run_defs)
  have "?pre @ Poll (Inl ?e) # ?post = ?pre @ Poll (Inl ?e) # ?post \<and> ?e \<noteq> ErrTimeout \<and>
          (\<forall>e'. Poll (Inl e') \<in> set ?pre \<longrightarrow> e' = ErrTimeout)"
    by simp
  then have "\<exists>pre post. ?pre @ Poll (Inl ?e) # ?post = pre @ Poll (Inl ?e) # post \<and> ?e \<noteq> ErrTimeout \<and>
          (\<forall>e'. Poll (Inl e') \<in> set pre \<longrightarrow> e' = ErrTimeout)"
    by blast
  then have "\<exists>n'. Accept_run (?pre @ Poll (Inl ?e) # ?post) ?n = Returns ?e n'"
    using Accept_returns_iff_fatal_poll [OF r, of "[]" "?pre @ Poll (Inl ?e) # ?post" ?e] by blast
  then show ?thesis
    using r by simp
qed

section \<open>The registry\<close>

lemma live_socket_registered:
  assumes "listener_inv n" and "p < length (l_heap n)"
    and "\<not> ch_closed (sock_close (l_heap n ! p))"
  shows "l_so n (Reply (sock_m (l_heap n ! p))) = Some p"
  using invD_watch [OF assms(1) invD_open [OF assms]] by simp

lemma handler_close_registered:
  assumes "listener_inv n" and "l_so n S = Some p"
  shows "\<exists>s'. handler_close p n = n\<lparr>l_heap := (l_heap n)[p := s']\<rparr> \<and> p < length (l_heap n) \<and>
           ch_closed (sock_close s') \<and> sock_m s' = sock_m (l_heap n ! p)"
proof -
  have w: "p \<in> l_watch n" using invD_so [OF assms] by simp
  have p: "p < length (l_heap n)" using invD_watch [OF assms(1) w] by simp
  obtain es s' where c: "Close (l_heap n ! p) = Inr (es, s')" "ch_closed (sock_close s')"
    "sock_m s' = sock_m (l_heap n ! p)"
    using Close_ok [OF invD_ok [OF assms(1) p]] by auto
  have "handler_close p n = n\<lparr>l_heap := (l_heap n)[p := s']\<rparr>"
    using p c(1) by (simp add: handler_close_def)
  then show ?thesis using p c(2,3) by blast
qed

lemma close_then_cleanup:
  assumes "listener_inv n" and "l_so n S = Some p"
  shows "l_so (watcher p (handler_close p n)) S = None \<and>
         l_heap (watcher p (handler_close p n)) = l_heap (handler_close p n) \<and>
         length (l_heap (handler_close p n)) = length (l_heap n) \<and>
         p < length (l_heap n) \<and>
         ch_closed (sock_close (l_heap (handler_close p n) ! p))"
proof -
  obtain s' where h: "handler_close p n = n\<lparr>l_heap := (l_heap n)[p := s']\<rparr>"
    and p: "p < length (l_heap n)" and cl: "ch_closed (sock_close s')"
    and m: "sock_m s' = sock_m (l_heap n ! p)"
    using handler_close_registered [OF assms] by blast
  let ?n1 = "n\<lparr>l_heap := (l_heap n)[p := s']\<rparr>"
  have w: "p \<in> l_watch ?n1"
    using invD_so [OF assms] by simp
  have S: "Reply (sock_m (l_heap ?n1 ! p)) = S"
    using invD_so [OF assms] p by (simp add: m)
  have ready: "chan_ready (sock_close (l_heap ?n1 ! p))"
    using p cl by (simp add: chan_ready_def)
  have len: "p < length (l_heap ?n1)"
    using p by simp
  have "watcher p ?n1 = ?n1\<lparr>l_so := (l_so ?n1)(S := None), l_watch := l_watch ?n1 - {p}\<rparr>"
    unfolding watcher_def using w ready len by (simp only: S simp_thms if_True)
  then have "l_so (watcher p ?n1) S = None" and "l_heap (watcher p ?n1) = l_heap ?n1"
    by simp_all
  moreover have "length (l_heap ?n1) = length (l_heap n)"
    by simp
  moreover have "ch_closed (sock_close (l_heap ?n1 ! p))"
    using p cl by simp
  ultimately show ?thesis
    using p unfolding h by blast
qed

text \<open>
  C5. In every listener state reached by a run of the accept loop: two sockets of the
  same reply subject whose close signals are both unreleased are the same socket (at most
  one live socket per subject). And for a registered socket: once it is closed and its
  cleanup goroutine has run, the registry has no entry for its subject (the entry is
  deleted); the next frame of that subject then creates a new socket at a new address,
  registered under the subject, open and holding exactly that frame, while the old socket
  stays as its close left it.
\<close>

theorem registry_cleanup_and_reuse:
  assumes "Accept_run evs (new_listener a) = Polling n"
  shows "(\<forall>p q. p < length (l_heap n) \<and> q < length (l_heap n) \<and>
            \<not> ch_closed (sock_close (l_heap n ! p)) \<and>
            \<not> ch_closed (sock_close (l_heap n ! q)) \<and>
            Reply (sock_m (l_heap n ! p)) = Reply (sock_m (l_heap n ! q)) \<longrightarrow> p = q) \<and>
         (\<forall>S p m. l_so n S = Some p \<and> Reply m = S \<longrightarrow>
            l_so (watcher p (handler_close p n)) S = None \<and>
            (case accept_frame m (watcher p (handler_close p n)) of
               Inl c \<Rightarrow> False
             | Inr n2 \<Rightarrow>
                 l_so n2 S = Some (length (l_heap n)) \<and> p < length (l_heap n) \<and>
                 l_heap n2 ! p = l_heap (handler_close p n) ! p \<and>
                 ch_closed (sock_close (l_heap n2 ! p)) \<and>
                 sock_m (l_heap n2 ! length (l_heap n)) = m \<and>
                 pending (l_heap n2 ! length (l_heap n)) = [m] \<and>
                 \<not> ch_closed (sock_close (l_heap n2 ! length (l_heap n)))))"
proof -
  have inv: "listener_inv n"
    using assms by (rule reachable_inv)
  have one: "p = q"
    if "p < length (l_heap n)" "q < length (l_heap n)"
      "\<not> ch_closed (sock_close (l_heap n ! p))" "\<not> ch_closed (sock_close (l_heap n ! q))"
      "Reply (sock_m (l_heap n ! p)) = Reply (sock_m (l_heap n ! q))" for p q
    using live_socket_registered [OF inv that(1,3)] live_socket_registered [OF inv that(2,4)]
      that(5) by (metis option.inject)
  have reuse: "l_so (watcher p (handler_close p n)) S = None \<and>
            (case accept_frame m (watcher p (handler_close p n)) of
               Inl c \<Rightarrow> False
             | Inr n2 \<Rightarrow>
                 l_so n2 S = Some (length (l_heap n)) \<and> p < length (l_heap n) \<and>
                 l_heap n2 ! p = l_heap (handler_close p n) ! p \<and>
                 ch_closed (sock_close (l_heap n2 ! p)) \<and>
                 sock_m (l_heap n2 ! length (l_heap n)) = m \<and>
                 pending (l_heap n2 ! length (l_heap n)) = [m] \<and>
                 \<not> ch_closed (sock_close (l_heap n2 ! length (l_heap n))))"
    if so: "l_so n S = Some p" and m: "Reply m = S" for S p m
  proof -
    let ?n1 = "watcher p (handler_close p n)"
    have c: "l_so ?n1 S = None" "l_heap ?n1 = l_heap (handler_close p n)"
      "length (l_heap (handler_close p n)) = length (l_heap n)" "p < length (l_heap n)"
      "ch_closed (sock_close (l_heap (handler_close p n) ! p))"
      using close_then_cleanup [OF inv so] by simp_all
    have fresh: "l_so ?n1 (Reply m) = None"
      using c(1) m by simp
    obtain n2 where n2: "accept_frame m ?n1 = Inr n2"
      "l_so n2 (Reply m) = Some (length (l_heap ?n1))"
      "\<not> ch_closed (sock_close (l_heap n2 ! length (l_heap ?n1)))"
      "pending (l_heap n2 ! length (l_heap ?n1)) = [m]"
      "sock_m (l_heap n2 ! length (l_heap ?n1)) = m"
      "\<forall>q < length (l_heap ?n1). l_heap n2 ! q = l_heap ?n1 ! q"
      using accept_frame_fresh [OF fresh] by blast
    have len: "length (l_heap ?n1) = length (l_heap n)"
      using c(2,3) by simp
    have old: "l_heap n2 ! p = l_heap (handler_close p n) ! p"
      using n2(6) c(2,4) len by simp
    show ?thesis
      using c(1,4,5) n2(1,2,3,4,5) m old by (simp add: len)
  qed
  show ?thesis
  proof (rule conjI)
    show "\<forall>p q. p < length (l_heap n) \<and> q < length (l_heap n) \<and>
            \<not> ch_closed (sock_close (l_heap n ! p)) \<and>
            \<not> ch_closed (sock_close (l_heap n ! q)) \<and>
            Reply (sock_m (l_heap n ! p)) = Reply (sock_m (l_heap n ! q)) \<longrightarrow> p = q"
      using one by blast
  next
    show "\<forall>S p m. l_so n S = Some p \<and> Reply m = S \<longrightarrow>
            l_so (watcher p (handler_close p n)) S = None \<and>
            (case accept_frame m (watcher p (handler_close p n)) of
               Inl c \<Rightarrow> False
             | Inr n2 \<Rightarrow>
                 l_so n2 S = Some (length (l_heap n)) \<and> p < length (l_heap n) \<and>
                 l_heap n2 ! p = l_heap (handler_close p n) ! p \<and>
                 ch_closed (sock_close (l_heap n2 ! p)) \<and>
                 sock_m (l_heap n2 ! length (l_heap n)) = m \<and>
                 pending (l_heap n2 ! length (l_heap n)) = [m] \<and>
                 \<not> ch_closed (sock_close (l_heap n2 ! length (l_heap n))))"
    proof (intro allI impI)
      fix S p and m :: Msg
      assume "l_so n S = Some p \<and> Reply m = S"
      then have "l_so n S = Some p" and "Reply m = S"
        by simp_all
      then show "l_so (watcher p (handler_close p n)) S = None \<and>
            (case accept_frame m (watcher p (handler_close p n)) of
               Inl c \<Rightarrow> False
             | Inr n2 \<Rightarrow>
                 l_so n2 S = Some (length (l_heap n)) \<and> p < length (l_heap n) \<and>
                 l_heap n2 ! p = l_heap (handler_close p n) ! p \<and>
                 ch_closed (sock_close (l_heap n2 ! p)) \<and>
                 sock_m (l_heap n2 ! length (l_heap n)) = m \<and>
                 pending (l_heap n2 ! length (l_heap n)) = [m] \<and>
                 \<not> ch_closed (sock_close (l_heap n2 ! length (l_heap n))))"
        by (rule reuse)
    qed
  qed
qed

theorem registry_cleanup_and_reuse_witness:
  "(case Accept_run [Poll (Inr \<lparr>Subject = ''srv'', Reply = ''inbox1'', Data = ''ping''\<rparr>)]
           (new_listener ''srv'') of
      Polling n \<Rightarrow>
        l_so n ''inbox1'' = Some 0 \<and>
        l_so (watcher 0 (handler_close 0 n)) ''inbox1'' = None \<and>
        (case accept_frame \<lparr>Subject = ''srv'', Reply = ''inbox1'', Data = ''next''\<rparr>
                (watcher 0 (handler_close 0 n)) of
           Inl c \<Rightarrow> False
         | Inr n2 \<Rightarrow>
             l_so n2 ''inbox1'' = Some 1 \<and>
             ch_closed (sock_close (l_heap n2 ! 0)) \<and>
             sock_m (l_heap n2 ! 1) = \<lparr>Subject = ''srv'', Reply = ''inbox1'', Data = ''next''\<rparr> \<and>
             pending (l_heap n2 ! 1) = [\<lparr>Subject = ''srv'', Reply = ''inbox1'', Data = ''next''\<rparr>] \<and>
             \<not> ch_closed (sock_close (l_heap n2 ! 1)))
    | Returns e n \<Rightarrow> False
    | Crashed c \<Rightarrow> False)"
proof -
  obtain n where n: "Accept_run [Poll (Inr \<lparr>Subject = ''srv'', Reply = ''inbox1'', Data = ''ping''\<rparr>)]
           (new_listener ''srv'') = Polling n"
    by (simp add: run_defs)
  then have so: "l_so n ''inbox1'' = Some 0" and len: "length (l_heap n) = 1"
    by (auto simp: run_defs)
  have "l_so n ''inbox1'' = Some 0 \<and>
        Reply \<lparr>Subject = ''srv'', Reply = ''inbox1'', Data = ''next''\<rparr> = ''inbox1'' \<longrightarrow>
        l_so (watcher 0 (handler_close 0 n)) ''inbox1'' = None \<and>
            (case accept_frame \<lparr>Subject = ''srv'', Reply = ''inbox1'', Data = ''next''\<rparr>
                    (watcher 0 (handler_close 0 n)) of
               Inl c \<Rightarrow> False
             | Inr n2 \<Rightarrow>
                 l_so n2 ''inbox1'' = Some (length (l_heap n)) \<and> 0 < length (l_heap n) \<and>
                 l_heap n2 ! 0 = l_heap (handler_close 0 n) ! 0 \<and>
                 ch_closed (sock_close (l_heap n2 ! 0)) \<and>
                 sock_m (l_heap n2 ! length (l_heap n)) =
                   \<lparr>Subject = ''srv'', Reply = ''inbox1'', Data = ''next''\<rparr> \<and>
                 pending (l_heap n2 ! length (l_heap n)) =
                   [\<lparr>Subject = ''srv'', Reply = ''inbox1'', Data = ''next''\<rparr>] \<and>
                 \<not> ch_closed (sock_close (l_heap n2 ! length (l_heap n))))"
    using registry_cleanup_and_reuse [OF n] by blast
  then show ?thesis
    unfolding n using so len by (auto split: sum.splits)
qed

section \<open>Request and reply\<close>

lemma Recv_first:
  assumes "sock_ok s" and "pending s = [f]"
  shows "\<exists>s'. Recv cd (Some v) s = RecvReturn (fst (decode_into cd f v)) (snd (decode_into cd f v)) s' \<and>
           sock_m s' = sock_m s"
  using take_frame_ok [OF assms(1)] assms(2)
  by (auto simp: Recv_def split: prod.splits)

text \<open>
  C6. A client whose server address is the listener's subject sends a message on a fresh
  session; the listener polls the frame and creates the socket; the handler's \<open>Recv\<close>
  on that socket returns the message; the handler's \<open>Send\<close> of a reply publishes to the
  client's private subject; and the client's \<open>Recv\<close> returns exactly that reply. The
  assumptions are those of the claim: both messages survive encoding and decoding, and the
  bus loses nothing (no publish error, both subjects subscribed with nothing pending).
\<close>

theorem round_trip:
  assumes "json_Marshal cd (Some msg) = Inr breq"
    and "json_Unmarshal cd breq (Some m0) = (None, Some msg)"
    and "json_Marshal cd (Some reply) = Inr brep"
    and "json_Unmarshal cd brep None = (None, Some reply)"
    and "publish_err b = None"
    and "queues b (l_addr n) = Some []" and "queues b (cl_id c) = Some []"
    and "cl_addr c = l_addr n" and "cl_id c \<noteq> l_addr n"
    and "l_so n (cl_id c) = None"
  shows "case Client_Send cd c (Some msg) b of
           (e1, b1) \<Rightarrow>
             e1 = None \<and>
             (case NextMsg (l_addr n) b1 of
                (polled, b2) \<Rightarrow>
                  (case Accept_run [Poll polled] n of
                     Polling n1 \<Rightarrow>
                       (case l_so n1 (cl_id c) of
                          None \<Rightarrow> False
                        | Some p \<Rightarrow>
                            (case Recv cd (Some m0) (l_heap n1 ! p) of
                               RecvReturn err got s1 \<Rightarrow>
                                 err = None \<and> got = Some msg \<and>
                                 (case Send cd s1 (Some reply) b2 of
                                    (e2, b3) \<Rightarrow>
                                      e2 = None \<and>
                                      fst (Client_Recv cd c (Some m1) b3) = Inr (None, Some reply))
                             | RecvBlocked \<Rightarrow> False
                             | RecvPanic x \<Rightarrow> False))
                   | Returns e n1 \<Rightarrow> False
                   | Crashed x \<Rightarrow> False))"
proof -
  let ?f = "\<lparr>Subject = l_addr n, Reply = cl_id c, Data = breq\<rparr>"
  let ?g = "\<lparr>Subject = cl_id c, Reply = [], Data = brep\<rparr>"
  let ?b1 = "b\<lparr>queues := (queues b)(l_addr n \<mapsto> [?f])\<rparr>"
  let ?b2 = "?b1\<lparr>queues := (queues ?b1)(l_addr n \<mapsto> [])\<rparr>"
  let ?b3 = "?b2\<lparr>queues := (queues ?b2)(cl_id c \<mapsto> [?g])\<rparr>"
  have send: "Client_Send cd c (Some msg) b = (None, ?b1)"
    using assms(1,5,6,8) by (simp add: Client_Send_def PublishRequest_def)
  have poll: "NextMsg (l_addr n) ?b1 = (Inr ?f, ?b2)"
    by (simp add: NextMsg_def)
  have fresh: "l_so n (Reply ?f) = None"
    using assms(10) by simp
  obtain n1 where n1: "accept_frame ?f n = Inr n1" "l_so n1 (cl_id c) = Some (length (l_heap n))"
    "sock_ok (l_heap n1 ! length (l_heap n))" "pending (l_heap n1 ! length (l_heap n)) = [?f]"
    "sock_m (l_heap n1 ! length (l_heap n)) = ?f"
    using accept_frame_fresh [OF fresh] by auto
  have run: "Accept_run [Poll (Inr ?f)] n = Polling n1"
    using n1(1) by simp
  have dec: "decode_into cd ?f m0 = (None, Some msg)"
    using assms(2) by (simp add: decode_into_def)
  obtain s1 where s1: "Recv cd (Some m0) (l_heap n1 ! length (l_heap n)) = RecvReturn None (Some msg) s1"
    "sock_m s1 = ?f"
    using Recv_first [OF n1(3,4), of cd m0] dec n1(5) by auto
  have q2: "queues ?b2 (cl_id c) = Some []"
    using assms(7,9) by simp
  have reply: "Send cd s1 (Some reply) ?b2 = (None, ?b3)"
    using assms(3,5) q2 s1(2) by (simp add: Send_def Publish_def PublishRequest_def)
  have recv: "fst (Client_Recv cd c (Some m1) ?b3) = Inr (None, Some reply)"
    using assms(4) by (simp add: Client_Recv_def NextMsg_def)
  show ?thesis
    by (simp only: send poll run n1(2) s1(1) reply recv prod.case accept_result.case
        option.case recv_outcome.case simp_thms)
qed

theorem round_trip_witness:
  "(case Client_Send text_codec \<lparr>cl_addr = ''srv'', cl_id = ''inbox1''\<rparr> (Some ''ping'')
          \<lparr>queues = [''srv'' \<mapsto> [], ''inbox1'' \<mapsto> []], inbox_name = (\<lambda>k. replicate k CHR ''i''),
           inbox_seq = 2, connect_err = (\<lambda>servers. None), subscribe_err = None,
           publish_err = None\<rparr> of
      (e1, b1) \<Rightarrow>
        e1 = None \<and>
        (case NextMsg ''srv'' b1 of
           (polled, b2) \<Rightarrow>
             (case Accept_run [Poll polled] (new_listener ''srv'') of
                Polling n1 \<Rightarrow>
                  (case l_so n1 ''inbox1'' of
                     None \<Rightarrow> False
                   | Some p \<Rightarrow>
                       (case Recv text_codec (Some []) (l_heap n1 ! p) of
                          RecvReturn err got s1 \<Rightarrow>
                            err = None \<and> got = Some ''ping'' \<and>
                            (case Send text_codec s1 (Some ''pong'') b2 of
                               (e2, b3) \<Rightarrow>
                                 e2 = None \<and>
                                 fst (Client_Recv text_codec \<lparr>cl_addr = ''srv'', cl_id = ''inbox1''\<rparr>
                                        (Some []) b3) = Inr (None, Some ''pong''))
                        | RecvBlocked \<Rightarrow> False
                        | RecvPanic x \<Rightarrow> False))
              | Returns e n1 \<Rightarrow> False
              | Crashed x \<Rightarrow> False)))"
proof -
  let ?b = "\<lparr>queues = [''srv'' \<mapsto> [], ''inbox1'' \<mapsto> []], inbox_name = (\<lambda>k. replicate k CHR ''i''),
           inbox_seq = 2, connect_err = (\<lambda>servers. None), subscribe_err = None,
           publish_err = None\<rparr>"
  let ?c = "\<lparr>cl_addr = ''srv'', cl_id = ''inbox1''\<rparr>"
  let ?n = "new_listener ''srv''"
  have h1: "json_Marshal text_codec (Some ''ping'') = Inr ''ping''"
    and h2: "json_Unmarshal text_codec ''ping'' (Some []) = (None, Some ''ping'')"
    and h3: "json_Marshal text_codec (Some ''pong'') = Inr ''pong''"
    and h4: "json_Unmarshal text_codec ''pong'' None = (None, Some ''pong'')"
    by (simp_all add: text_codec_def)
  have h5: "publish_err ?b = None"
    and h6: "queues ?b (l_addr ?n) = Some []" and h7: "queues ?b (cl_id ?c) = Some []"
    and h8: "cl_addr ?c = l_addr ?n" and h9: "cl_id ?c \<noteq> l_addr ?n"
    and h10: "l_so ?n (cl_id ?c) = None"
    by (simp_all add: new_listener_def)
  have l: "l_addr ?n = ''srv''" and c: "cl_id ?c = ''inbox1''"
    by (simp_all add: new_listener_def)
  show ?thesis
    using round_trip [OF h1 h2 h3 h4 h5 h6 h7 h8 h9 h10, of "[]"]
    by (simp only: l c)
qed

section \<open>Listen\<close>

text \<open>
  C8. \<open>Listen\<close> gives the same result for every address argument. When it returns a
  listener, the listener's subject is the inbox the bus generated for this call, and
  \<open>Addr\<close> returns it; \<open>Accept\<close> on that listener subscribes to exactly that subject;
  and, the bus's inbox names being unique, every later \<open>Listen\<close> gets another subject.
\<close>

theorem Listen_binds_generated_inbox:
  "Listen t addr b = Listen t addr' b \<and>
   (\<forall>l b1. Listen t addr b = (Inr l, b1) \<longrightarrow>
      NewInbox b = (Addr l, b1) \<and>
      (subscribe_err b1 = None \<longrightarrow>
         snd (Accept l evs b1) = b1\<lparr>queues := (queues b1)(Addr l \<mapsto> [])\<rparr>) \<and>
      (\<forall>t' a' b' l' b2.
         inj (inbox_name b) \<and> inbox_name b' = inbox_name b \<and> inbox_seq b1 \<le> inbox_seq b' \<and>
         Listen t' a' b' = (Inr l', b2) \<longrightarrow> Addr l' \<noteq> Addr l))"
proof (intro conjI allI impI)
  show "Listen t addr b = Listen t addr' b"
    by (simp add: Listen_def)
next
  fix l b1
  assume "Listen t addr b = (Inr l, b1)"
  then show "NewInbox b = (Addr l, b1)"
    by (auto simp: Listen_def NewInbox_def Addr_def new_listener_def split: option.splits)
next
  fix l b1
  assume "Listen t addr b = (Inr l, b1)" and "subscribe_err b1 = None"
  then show "snd (Accept l evs b1) = b1\<lparr>queues := (queues b1)(Addr l \<mapsto> [])\<rparr>"
    by (simp add: Accept_def SubscribeSync_def Addr_def)
next
  fix l b1 t' a' b' l' b2
  assume 1: "Listen t addr b = (Inr l, b1)"
    and 2: "inj (inbox_name b) \<and> inbox_name b' = inbox_name b \<and> inbox_seq b1 \<le> inbox_seq b' \<and>
         Listen t' a' b' = (Inr l', b2)"
  have l: "Addr l = inbox_name b (inbox_seq b)" and b1: "inbox_seq b1 = Suc (inbox_seq b)"
    using 1 by (auto simp: Listen_def NewInbox_def Addr_def new_listener_def split: option.splits)
  have l': "Addr l' = inbox_name b (inbox_seq b')"
    using 2 by (auto simp: Listen_def NewInbox_def Addr_def new_listener_def split: option.splits)
  have "inbox_seq b' \<noteq> inbox_seq b"
    using 2 b1 by simp
  then show "Addr l' \<noteq> Addr l"
    using 2 l l' by (auto dest: injD)
qed

theorem Listen_binds_generated_inbox_witness:
  "Listen \<lparr>t_addrs = [''nats://localhost:4222'']\<rparr> ''0.0.0.0:8080''
      \<lparr>queues = Map.empty, inbox_name = (\<lambda>k. ''_INBOX.'' @ replicate k CHR ''i''),
       inbox_seq = 2, connect_err = (\<lambda>servers. None), subscribe_err = None,
       publish_err = None\<rparr> =
     (Inr (new_listener ''_INBOX.ii''),
      \<lparr>queues = Map.empty, inbox_name = (\<lambda>k. ''_INBOX.'' @ replicate k CHR ''i''),
       inbox_seq = 3, connect_err = (\<lambda>servers. None), subscribe_err = None,
       publish_err = None\<rparr>) \<and>
   NewInbox \<lparr>queues = Map.empty, inbox_name = (\<lambda>k. ''_INBOX.'' @ replicate k CHR ''i''),
       inbox_seq = 2, connect_err = (\<lambda>servers. None), subscribe_err = None,
       publish_err = None\<rparr> =
     (Addr (new_listener ''_INBOX.ii''),
      \<lparr>queues = Map.empty, inbox_name = (\<lambda>k. ''_INBOX.'' @ replicate k CHR ''i''),
       inbox_seq = 3, connect_err = (\<lambda>servers. None), subscribe_err = None,
       publish_err = None\<rparr>) \<and>
   Addr (new_listener ''_INBOX.ii'') \<noteq> ''0.0.0.0:8080'' \<and>
   inj (\<lambda>k. ''_INBOX.'' @ replicate k CHR ''i'') \<and>
   Listen \<lparr>t_addrs = [''nats://localhost:4222'']\<rparr> ''0.0.0.0:8080''
      \<lparr>queues = Map.empty, inbox_name = (\<lambda>k. ''_INBOX.'' @ replicate k CHR ''i''),
       inbox_seq = 3, connect_err = (\<lambda>servers. None), subscribe_err = None,
       publish_err = None\<rparr> =
     (Inr (new_listener ''_INBOX.iii''),
      \<lparr>queues = Map.empty, inbox_name = (\<lambda>k. ''_INBOX.'' @ replicate k CHR ''i''),
       inbox_seq = 4, connect_err = (\<lambda>servers. None), subscribe_err = None,
       publish_err = None\<rparr>) \<and>
   Addr (new_listener ''_INBOX.iii'') \<noteq> Addr (new_listener ''_INBOX.ii'')"
proof -
  let ?t = "\<lparr>t_addrs = [''nats://localhost:4222'']\<rparr>"
  let ?nm = "\<lambda>k. ''_INBOX.'' @ replicate k CHR ''i''"
  let ?b = "\<lparr>queues = Map.empty, inbox_name = ?nm,
       inbox_seq = 2, connect_err = (\<lambda>servers. None), subscribe_err = None,
       publish_err = None\<rparr>"
  let ?b1 = "\<lparr>queues = Map.empty, inbox_name = ?nm,
       inbox_seq = 3, connect_err = (\<lambda>servers. None), subscribe_err = None,
       publish_err = None\<rparr>"
  let ?b2 = "\<lparr>queues = Map.empty, inbox_name = ?nm,
       inbox_seq = 4, connect_err = (\<lambda>servers. None), subscribe_err = None,
       publish_err = None\<rparr>"
  have a: "Listen ?t ''0.0.0.0:8080'' ?b = (Inr (new_listener ''_INBOX.ii''), ?b1)"
    by (simp add: Listen_def Connect_def NewInbox_def numeral_2_eq_2)
  have b: "Listen ?t ''0.0.0.0:8080'' ?b1 = (Inr (new_listener ''_INBOX.iii''), ?b2)"
    by (simp add: Listen_def Connect_def NewInbox_def numeral_3_eq_3)
  have i: "inj ?nm"
    by (simp add: inj_def)
  have hyp: "inj (inbox_name ?b) \<and> inbox_name ?b1 = inbox_name ?b \<and>
      inbox_seq ?b1 \<le> inbox_seq ?b1 \<and>
      Listen ?t ''0.0.0.0:8080'' ?b1 = (Inr (new_listener ''_INBOX.iii''), ?b2)"
    using b i by simp
  note inst = Listen_binds_generated_inbox [of ?t "''0.0.0.0:8080''" ?b "''0.0.0.0:8080''" "[]"]
  have c: "NewInbox ?b = (Addr (new_listener ''_INBOX.ii''), ?b1)"
    using inst a by blast
  have d: "Addr (new_listener ''_INBOX.iii'') \<noteq> Addr (new_listener ''_INBOX.ii'')"
    using inst a hyp by blast
  have e: "Addr (new_listener ''_INBOX.ii'') \<noteq> ''0.0.0.0:8080''"
    by (simp add: Addr_def new_listener_def)
  show ?thesis
    using a b c d e i by blast
qed

end
